theory Spec2Isabelle
  imports Main "HOL-Library.Sublist"
begin

section \<open>The Org Policy \<open>allow\<close> command: data model\<close>

text \<open>
  The command of \<^verbatim>\<open>surface/org_policies/allow.py\<close> edits a list-constraint policy: an
  ordered list of rules, each with an optional condition, the optional booleans
  \<^verbatim>\<open>allowAll\<close> and \<^verbatim>\<open>denyAll\<close>, and an optional pair of string lists. Python's
  \<^verbatim>\<open>None\<close> is \<open>None\<close> of an option type; a condition is the opaque expression
  string that rules are matched by. The two exceptions keep the names of the source;
  the specification calls them \<^verbatim>\<open>InvalidRequestError\<close> and
  \<^verbatim>\<open>UnsupportedOperationError\<close>.
\<close>

datatype error = InvalidInputError | OperationNotSupportedError

record StringValues =
  allowedValues :: "string list"
  deniedValues :: "string list"

record PolicyRule =
  condition :: "string option"
  allowAll :: "bool option"
  denyAll :: "bool option"
  rule_values :: "StringValues option"

record Policy =
  rules :: "PolicyRule list"

text \<open>
  The parsed command line: \<^verbatim>\<open>args.value\<close> (no value given is the empty list),
  \<^verbatim>\<open>args.remove\<close> and \<^verbatim>\<open>args.condition\<close>.
\<close>

record Args =
  arg_value :: "string list"
  arg_remove :: bool
  arg_condition :: "string option"

text \<open>
  The command is modelled twice. First on values, where a policy is the list of its
  rules and the edits are list operations: this is what the command computes. Then on a
  store of objects with \<^verbatim>\<open>copy.deepcopy\<close> as allocation, which is how the Python code
  computes it; there the caller's policy and the returned one can be told apart. The
  second model is proved to leave the caller's objects alone and to compute the first.
\<close>

section \<open>Helpers of the SDK that the command calls\<close>

text \<open>
  A rule of a policy is referred to by its position in the policy's rule list: a
  position plays the part of Python's reference to the rule object, so that writing
  through it changes the policy that holds the rule.
\<close>

definition rule_at :: "Policy \<Rightarrow> nat \<Rightarrow> PolicyRule" where
  "rule_at policy i = rules policy ! i"

text \<open>
  Modelled from the spec: \<^verbatim>\<open>org_policy_utils.GetMatchingRulesFromPolicy\<close>, which is not
  among the sources. A rule matches when its condition equals the requested one, the
  absent condition matching only the absent condition; the matching rules come in
  policy order.
\<close>

definition GetMatchingRulesFromPolicy :: "Policy \<Rightarrow> string option \<Rightarrow> nat list" where
  "GetMatchingRulesFromPolicy policy cond =
     filter (\<lambda>i. condition (rule_at policy i) = cond) [0..<length (rules policy)]"

text \<open>
  Modelled from the spec: \<^verbatim>\<open>org_policy_utils.GetNonMatchingRulesFromPolicy\<close>, which is
  not among the sources: the rules whose condition differs from the requested one, in
  policy order.
\<close>

definition GetNonMatchingRulesFromPolicy :: "Policy \<Rightarrow> string option \<Rightarrow> PolicyRule list" where
  "GetNonMatchingRulesFromPolicy policy cond =
     filter (\<lambda>r. condition r \<noteq> cond) (rules policy)"

text \<open>
  Modelled from the spec: \<^verbatim>\<open>org_policy_utils.CreateRuleOnPolicy\<close>, which is not among the
  sources: a new rule that has the condition and nothing else is appended to the policy;
  the result is the reference to the new rule and the policy.
\<close>

definition empty_rule :: "string option \<Rightarrow> PolicyRule" where
  "empty_rule cond = \<lparr>condition = cond, allowAll = None, denyAll = None, rule_values = None\<rparr>"

definition CreateRuleOnPolicy :: "Policy \<Rightarrow> string option \<Rightarrow> nat \<times> Policy" where
  "CreateRuleOnPolicy policy cond =
     (length (rules policy), policy\<lparr>rules := rules policy @ [empty_rule cond]\<rparr>)"

text \<open>
  Modelled from the spec: the remove-values workflow behind
  \<^verbatim>\<open>utils.RemoveAllowedValuesFromPolicy\<close> and \<^verbatim>\<open>utils.RemoveDeniedValuesFromPolicy\<close>, which
  are not among the sources. Every rule that matches the condition loses the requested
  values from the targeted list; then a matching rule whose two lists are empty or absent
  and whose \<^verbatim>\<open>allowAll\<close> and \<^verbatim>\<open>denyAll\<close> are unset is deleted. Rules that do not match
  are left as they are.
\<close>

datatype target = Allowed | Denied

definition remove_from_values :: "target \<Rightarrow> string list \<Rightarrow> StringValues \<Rightarrow> StringValues" where
  "remove_from_values t vs sv =
     (case t of
        Allowed \<Rightarrow> sv\<lparr>allowedValues := filter (\<lambda>v. v \<notin> set vs) (allowedValues sv)\<rparr>
      | Denied \<Rightarrow> sv\<lparr>deniedValues := filter (\<lambda>v. v \<notin> set vs) (deniedValues sv)\<rparr>)"

definition remove_from_rule :: "target \<Rightarrow> string list \<Rightarrow> PolicyRule \<Rightarrow> PolicyRule" where
  "remove_from_rule t vs r = r\<lparr>rule_values := map_option (remove_from_values t vs) (rule_values r)\<rparr>"

definition dead_rule :: "PolicyRule \<Rightarrow> bool" where
  "dead_rule r \<longleftrightarrow>
     (case rule_values r of None \<Rightarrow> True
      | Some sv \<Rightarrow> allowedValues sv = [] \<and> deniedValues sv = [])
     \<and> allowAll r = None \<and> denyAll r = None"

definition RemoveValuesFromPolicy :: "target \<Rightarrow> Policy \<Rightarrow> Args \<Rightarrow> Policy" where
  "RemoveValuesFromPolicy t policy args =
     (let cond = arg_condition args;
          updated = map (\<lambda>r. if condition r = cond then remove_from_rule t (arg_value args) r
                              else r) (rules policy)
      in policy\<lparr>rules := filter (\<lambda>r. \<not> (condition r = cond \<and> dead_rule r)) updated\<rparr>)"

definition RemoveAllowedValuesFromPolicy :: "Policy \<Rightarrow> Args \<Rightarrow> Policy" where
  "RemoveAllowedValuesFromPolicy = RemoveValuesFromPolicy Allowed"

definition RemoveDeniedValuesFromPolicy :: "Policy \<Rightarrow> Args \<Rightarrow> Policy" where
  "RemoveDeniedValuesFromPolicy = RemoveValuesFromPolicy Denied"

section \<open>The command\<close>

text \<open>
  \<^verbatim>\<open>collections.OrderedDict.fromkeys\<close> followed by \<^verbatim>\<open>list\<close>: the keys in the order
  of their first insertion; inserting a key that is present leaves the order alone.
\<close>

definition fromkeys :: "'a list \<Rightarrow> 'a list" where
  "fromkeys ks = foldl (\<lambda>d k. if k \<in> set d then d else d @ [k]) [] ks"

text \<open>
  \<^verbatim>\<open>Allow._GetMissingAllowedValuesFromRules\<close>. The rule list may be \<^verbatim>\<open>None\<close>; a rule
  contributes its allowed values when it has a \<^verbatim>\<open>values\<close> message.
\<close>

definition GetMissingAllowedValuesFromRules ::
    "PolicyRule list option \<Rightarrow> string list \<Rightarrow> string list" where
  "GetMissingAllowedValuesFromRules rules_opt vals =
     (let rs = (case rules_opt of None \<Rightarrow> [] | Some rs \<Rightarrow> rs);
          existing_value_lists =
            map (\<lambda>r. allowedValues (the (rule_values r))) (filter (\<lambda>r. rule_values r \<noteq> None) rs);
          existing_values = set (concat existing_value_lists);
          missing_values = fromkeys (filter (\<lambda>v. v \<notin> existing_values) vals)
      in missing_values)"

text \<open>
  The loop of \<^verbatim>\<open>Allow._AddValues\<close> over the matching rules: the first rule with a true
  \<^verbatim>\<open>allowAll\<close> ends the command with the policy as it is, a rule with a true
  \<^verbatim>\<open>denyAll\<close> (tested second) raises, and the loop falls through when it meets neither.
\<close>

datatype scan_result = ReturnPolicy | Raise | FallThrough

fun scan_rules :: "PolicyRule list \<Rightarrow> scan_result" where
  "scan_rules [] = FallThrough"
| "scan_rules (r # rs) =
     (if allowAll r = Some True then ReturnPolicy
      else if denyAll r = Some True then Raise
      else scan_rules rs)"

text \<open>
  The tail of \<^verbatim>\<open>Allow._AddValues\<close>: the rule to update gets a \<^verbatim>\<open>values\<close> message when it
  has none, and the missing values are appended to its allowed values.
\<close>

definition append_allowed :: "string list \<Rightarrow> PolicyRule \<Rightarrow> PolicyRule" where
  "append_allowed missing_values r =
     (let sv = (case rule_values r of None \<Rightarrow> \<lparr>allowedValues = [], deniedValues = []\<rparr>
                | Some sv \<Rightarrow> sv)
      in r\<lparr>rule_values := Some (sv\<lparr>allowedValues := allowedValues sv @ missing_values\<rparr>)\<rparr>)"

definition update_rule :: "Policy \<Rightarrow> nat \<Rightarrow> (PolicyRule \<Rightarrow> PolicyRule) \<Rightarrow> Policy" where
  "update_rule policy i f = policy\<lparr>rules := (rules policy)[i := f (rule_at policy i)]\<rparr>"

definition AddValues :: "Policy \<Rightarrow> Args \<Rightarrow> error + Policy" where
  "AddValues policy args =
     (let new_policy = RemoveDeniedValuesFromPolicy policy args;
          rs = GetMatchingRulesFromPolicy new_policy (arg_condition args);
          missing_values =
            GetMissingAllowedValuesFromRules (Some (map (rule_at new_policy) rs)) (arg_value args)
      in if missing_values = [] then Inr new_policy
         else if rs = [] then
           (let (rule_to_update, new_policy) = CreateRuleOnPolicy new_policy (arg_condition args)
            in Inr (update_rule new_policy rule_to_update (append_allowed missing_values)))
         else
           (case scan_rules (map (rule_at new_policy) rs) of
              ReturnPolicy \<Rightarrow> Inr new_policy
            | Raise \<Rightarrow> Inl OperationNotSupportedError
            | FallThrough \<Rightarrow>
                (let rule_to_update = hd rs;
                     new_policy = update_rule new_policy rule_to_update
                                    (\<lambda>r. r\<lparr>allowAll := None, denyAll := None\<rparr>)
                 in Inr (update_rule new_policy rule_to_update (append_allowed missing_values)))))"

text \<open>\<^verbatim>\<open>Allow._AllowAllValues\<close>.\<close>

definition AllowAllValues :: "Policy \<Rightarrow> Args \<Rightarrow> Policy" where
  "AllowAllValues policy args =
     (let new_policy = policy\<lparr>rules := GetNonMatchingRulesFromPolicy policy (arg_condition args)\<rparr>;
          (rule_to_update, new_policy) = CreateRuleOnPolicy new_policy (arg_condition args)
      in update_rule new_policy rule_to_update (\<lambda>r. r\<lparr>allowAll := Some True\<rparr>))"

text \<open>\<^verbatim>\<open>Allow.UpdatePolicy\<close>: the workflow is chosen by the shape of the request.\<close>

definition UpdatePolicy :: "Policy \<Rightarrow> Args \<Rightarrow> error + Policy" where
  "UpdatePolicy policy args =
     (if arg_value args = [] then Inr (AllowAllValues policy args)
      else if arg_remove args then Inr (RemoveAllowedValuesFromPolicy policy args)
      else AddValues policy args)"

text \<open>
  \<^verbatim>\<open>Allow.Run\<close>: the request is validated, removal switches the creation of a missing
  policy off, and the superclass's \<^verbatim>\<open>Run\<close> does the rest. The superclass is not among
  the sources and is a parameter here, given the \<^verbatim>\<open>disable_create\<close> flag and the request.
\<close>

definition Run :: "(bool \<Rightarrow> Args \<Rightarrow> error + 'r) \<Rightarrow> bool \<Rightarrow> Args \<Rightarrow> error + 'r" where
  "Run super_Run disable_create args =
     (if arg_value args = [] \<and> arg_remove args then Inl InvalidInputError
      else super_Run (if arg_remove args then True else disable_create) args)"

text \<open>
  The spec's \<^verbatim>\<open>Reconcile(policy, request)\<close>: the command run on a policy that is already
  in memory, the superclass doing nothing but handing that policy to \<^verbatim>\<open>UpdatePolicy\<close>.
\<close>

definition Reconcile :: "Policy \<Rightarrow> Args \<Rightarrow> error + Policy" where
  "Reconcile policy args = Run (\<lambda>_ a. UpdatePolicy policy a) False args"

section \<open>The command on a store of objects\<close>

text \<open>
  The functions above compute on values. The Python code works on objects: the policy
  message, its rule messages and their \<^verbatim>\<open>values\<close> messages are mutable, a rule is
  reached through a reference, and \<^verbatim>\<open>copy.deepcopy\<close> is what keeps the caller's policy
  apart from the one the command edits. The store below has one list of objects per
  message class; a reference is an index into the list, allocation appends. A repeated
  field belongs to its message (assigning to it stores a list of the message's own), so a
  policy object is the list of the references of its rules, and a \<^verbatim>\<open>values\<close> object holds
  its two string lists.
\<close>

record RuleObj =
  obj_condition :: "string option"
  obj_allowAll :: "bool option"
  obj_denyAll :: "bool option"
  obj_values :: "nat option"

record Store =
  policy_objs :: "nat list list"
  rule_objs :: "RuleObj list"
  values_objs :: "StringValues list"

text \<open>Reading the value of a rule and of a policy out of the store.\<close>

definition read_rule :: "Store \<Rightarrow> nat \<Rightarrow> PolicyRule" where
  "read_rule st r =
     (let ro = rule_objs st ! r
      in \<lparr>condition = obj_condition ro, allowAll = obj_allowAll ro, denyAll = obj_denyAll ro,
          rule_values = map_option (\<lambda>v. values_objs st ! v) (obj_values ro)\<rparr>)"

definition read_policy :: "Store \<Rightarrow> nat \<Rightarrow> Policy" where
  "read_policy st pr = \<lparr>rules = map (read_rule st) (policy_objs st ! pr)\<rparr>"

text \<open>
  \<^verbatim>\<open>copy.deepcopy\<close> of a policy: every rule object and every \<^verbatim>\<open>values\<close> object reached
  from it is allocated anew. Each reference is copied on its own; this is what
  \<^verbatim>\<open>deepcopy\<close> does for a policy whose rules are distinct objects with \<^verbatim>\<open>values\<close>
  objects of their own (\<open>wf_policy\<close> below), as messages decoded from a response are.
\<close>

definition deepcopy_rule :: "Store \<Rightarrow> nat \<Rightarrow> nat \<times> Store" where
  "deepcopy_rule st r =
     (let ro = rule_objs st ! r
      in case obj_values ro of
           None \<Rightarrow> (length (rule_objs st), st\<lparr>rule_objs := rule_objs st @ [ro]\<rparr>)
         | Some v \<Rightarrow>
             (length (rule_objs st),
              st\<lparr>values_objs := values_objs st @ [values_objs st ! v],
                 rule_objs := rule_objs st @ [ro\<lparr>obj_values := Some (length (values_objs st))\<rparr>]\<rparr>))"

fun deepcopy_rules :: "Store \<Rightarrow> nat list \<Rightarrow> nat list \<times> Store" where
  "deepcopy_rules st [] = ([], st)"
| "deepcopy_rules st (r # rs) =
     (let (r', st1) = deepcopy_rule st r;
          (rs', st2) = deepcopy_rules st1 rs
      in (r' # rs', st2))"

definition deepcopy :: "Store \<Rightarrow> nat \<Rightarrow> nat \<times> Store" where
  "deepcopy st pr =
     (let (rs', st1) = deepcopy_rules st (policy_objs st ! pr)
      in (length (policy_objs st1), st1\<lparr>policy_objs := policy_objs st1 @ [rs']\<rparr>))"

text \<open>
  Modelled from the spec: \<^verbatim>\<open>org_policy_utils.GetMatchingRulesFromPolicy\<close> and
  \<^verbatim>\<open>org_policy_utils.GetNonMatchingRulesFromPolicy\<close>, which are not among the sources, on
  the store: the references of the rules of the policy whose condition equals, or differs
  from, the requested one.
\<close>

definition GetMatchingRulesFromPolicy_st :: "Store \<Rightarrow> nat \<Rightarrow> string option \<Rightarrow> nat list" where
  "GetMatchingRulesFromPolicy_st st pr cond =
     filter (\<lambda>r. obj_condition (rule_objs st ! r) = cond) (policy_objs st ! pr)"

definition GetNonMatchingRulesFromPolicy_st :: "Store \<Rightarrow> nat \<Rightarrow> string option \<Rightarrow> nat list" where
  "GetNonMatchingRulesFromPolicy_st st pr cond =
     filter (\<lambda>r. obj_condition (rule_objs st ! r) \<noteq> cond) (policy_objs st ! pr)"

text \<open>
  Modelled from the spec: \<^verbatim>\<open>org_policy_utils.CreateRuleOnPolicy\<close>, which is not among the
  sources, on the store: a new rule object with the condition is allocated and its
  reference appended to the rules of the policy it is given.
\<close>

definition CreateRuleOnPolicy_st :: "Store \<Rightarrow> nat \<Rightarrow> string option \<Rightarrow> nat \<times> nat \<times> Store" where
  "CreateRuleOnPolicy_st st pr cond =
     (let r = length (rule_objs st);
          st1 = st\<lparr>rule_objs := rule_objs st @
                  [\<lparr>obj_condition = cond, obj_allowAll = None, obj_denyAll = None,
                    obj_values = None\<rparr>]\<rparr>;
          st2 = st1\<lparr>policy_objs := (policy_objs st1)[pr := policy_objs st1 ! pr @ [r]]\<rparr>
      in (r, pr, st2))"

text \<open>
  Modelled from the spec: the remove-values workflow, which is not among the sources, on
  the store. It works on a copy of the policy it is given (the spec: the engine never
  changes the caller's policy in place): the targeted list of every matching rule of the
  copy is rewritten, and the dead matching rules leave the copy's rule list.
\<close>

definition strip_rule_st :: "target \<Rightarrow> string list \<Rightarrow> Store \<Rightarrow> nat \<Rightarrow> Store" where
  "strip_rule_st t vs st r =
     (case obj_values (rule_objs st ! r) of
        None \<Rightarrow> st
      | Some v \<Rightarrow> st\<lparr>values_objs :=
                      (values_objs st)[v := remove_from_values t vs (values_objs st ! v)]\<rparr>)"

definition RemoveValuesFromPolicy_st :: "target \<Rightarrow> Store \<Rightarrow> nat \<Rightarrow> Args \<Rightarrow> nat \<times> Store" where
  "RemoveValuesFromPolicy_st t st pr args =
     (let (new_policy, st1) = deepcopy st pr;
          rules_to_update = GetMatchingRulesFromPolicy_st st1 new_policy (arg_condition args);
          st2 = foldl (strip_rule_st t (arg_value args)) st1 rules_to_update;
          st3 = st2\<lparr>policy_objs := (policy_objs st2)[new_policy :=
                  filter (\<lambda>r. \<not> (obj_condition (rule_objs st2 ! r) = arg_condition args
                                   \<and> dead_rule (read_rule st2 r)))
                    (policy_objs st2 ! new_policy)]\<rparr>
      in (new_policy, st3))"

text \<open>
  The tail of \<^verbatim>\<open>Allow._AddValues\<close> on the store: a rule without a \<^verbatim>\<open>values\<close> message gets
  a new one, and the list of allowed values of the rule's message is extended in place.
\<close>

definition append_allowed_st :: "string list \<Rightarrow> Store \<Rightarrow> nat \<Rightarrow> Store" where
  "append_allowed_st missing_values st r =
     (let (v, st1) =
            (case obj_values (rule_objs st ! r) of
               None \<Rightarrow>
                 (length (values_objs st),
                  st\<lparr>values_objs := values_objs st @ [\<lparr>allowedValues = [], deniedValues = []\<rparr>],
                     rule_objs := (rule_objs st)[r := (rule_objs st ! r)
                        \<lparr>obj_values := Some (length (values_objs st))\<rparr>]\<rparr>)
             | Some v \<Rightarrow> (v, st))
      in st1\<lparr>values_objs := (values_objs st1)[v := (values_objs st1 ! v)
            \<lparr>allowedValues := allowedValues (values_objs st1 ! v) @ missing_values\<rparr>]\<rparr>)"

text \<open>\<^verbatim>\<open>Allow._AddValues\<close> on the store.\<close>

definition AddValues_st :: "Store \<Rightarrow> nat \<Rightarrow> Args \<Rightarrow> (error + nat) \<times> Store" where
  "AddValues_st st policy args =
     (let (new_policy, st1) = deepcopy st policy;
          (new_policy, st2) = RemoveValuesFromPolicy_st Denied st1 new_policy args;
          rs = GetMatchingRulesFromPolicy_st st2 new_policy (arg_condition args);
          missing_values =
            GetMissingAllowedValuesFromRules (Some (map (read_rule st2) rs)) (arg_value args)
      in if missing_values = [] then (Inr new_policy, st2)
         else if rs = [] then
           (let (rule_to_update, new_policy, st3) =
                  CreateRuleOnPolicy_st st2 new_policy (arg_condition args)
            in (Inr new_policy, append_allowed_st missing_values st3 rule_to_update))
         else
           (case scan_rules (map (read_rule st2) rs) of
              ReturnPolicy \<Rightarrow> (Inr new_policy, st2)
            | Raise \<Rightarrow> (Inl OperationNotSupportedError, st2)
            | FallThrough \<Rightarrow>
                (let rule_to_update = hd rs;
                     st3 = st2\<lparr>rule_objs := (rule_objs st2)[rule_to_update :=
                             (rule_objs st2 ! rule_to_update)
                               \<lparr>obj_allowAll := None, obj_denyAll := None\<rparr>]\<rparr>
                 in (Inr new_policy, append_allowed_st missing_values st3 rule_to_update))))"

text \<open>\<^verbatim>\<open>Allow._AllowAllValues\<close> on the store.\<close>

definition AllowAllValues_st :: "Store \<Rightarrow> nat \<Rightarrow> Args \<Rightarrow> nat \<times> Store" where
  "AllowAllValues_st st policy args =
     (let (new_policy, st1) = deepcopy st policy;
          st2 = st1\<lparr>policy_objs := (policy_objs st1)[new_policy :=
                  GetNonMatchingRulesFromPolicy_st st1 new_policy (arg_condition args)]\<rparr>;
          (rule_to_update, new_policy, st3) =
             CreateRuleOnPolicy_st st2 new_policy (arg_condition args);
          st4 = st3\<lparr>rule_objs := (rule_objs st3)[rule_to_update :=
                  (rule_objs st3 ! rule_to_update)\<lparr>obj_allowAll := Some True\<rparr>]\<rparr>
      in (new_policy, st4))"

text \<open>\<^verbatim>\<open>Allow.UpdatePolicy\<close> and the spec's \<^verbatim>\<open>Reconcile\<close> on the store.\<close>

definition UpdatePolicy_st :: "Store \<Rightarrow> nat \<Rightarrow> Args \<Rightarrow> (error + nat) \<times> Store" where
  "UpdatePolicy_st st policy args =
     (if arg_value args = [] then
        (let (new_policy, st') = AllowAllValues_st st policy args in (Inr new_policy, st'))
      else if arg_remove args then
        (let (new_policy, st') = RemoveValuesFromPolicy_st Allowed st policy args
         in (Inr new_policy, st'))
      else AddValues_st st policy args)"

definition Reconcile_st :: "Store \<Rightarrow> nat \<Rightarrow> Args \<Rightarrow> (error + nat) \<times> Store" where
  "Reconcile_st st policy args =
     (if arg_value args = [] \<and> arg_remove args then (Inl InvalidInputError, st)
      else UpdatePolicy_st st policy args)"

section \<open>Notions used to state the properties\<close>

text \<open>
  The values that a list of rules allows: the union of the rules' allowed values, a rule
  without a \<^verbatim>\<open>values\<close> message allowing none.
\<close>

definition existing_allowed :: "PolicyRule list \<Rightarrow> string set" where
  "existing_allowed rs =
     (\<Union>r \<in> set rs. case rule_values r of None \<Rightarrow> {} | Some sv \<Rightarrow> set (allowedValues sv))"

text \<open>The reference to the first rule of a policy that matches a condition.\<close>

definition first_matching :: "Policy \<Rightarrow> string option \<Rightarrow> nat" where
  "first_matching p c = hd (GetMatchingRulesFromPolicy p c)"

text \<open>
  A rule is settled for a removal request when the request would neither change nor
  delete it.
\<close>

definition settled :: "target \<Rightarrow> Args \<Rightarrow> PolicyRule \<Rightarrow> bool" where
  "settled t a r \<longleftrightarrow>
     (condition r = arg_condition a \<longrightarrow> remove_from_rule t (arg_value a) r = r \<and> \<not> dead_rule r)"

text \<open>The rule that the allow-all workflow creates.\<close>

definition allow_all_rule :: "string option \<Rightarrow> PolicyRule" where
  "allow_all_rule c = \<lparr>condition = c, allowAll = Some True, denyAll = None, rule_values = None\<rparr>"

text \<open>
  The specification's data model: within a rule \<^verbatim>\<open>allowAll\<close> and \<^verbatim>\<open>denyAll\<close> exclude
  each other, a rule with both true is not a rule of a policy.
\<close>

definition exclusive_flags :: "Policy \<Rightarrow> bool" where
  "exclusive_flags p \<longleftrightarrow>
     list_all (\<lambda>r. \<not> (allowAll r = Some True \<and> denyAll r = Some True)) (rules p)"

text \<open>
  A later store extends an earlier one when every object of the earlier store is still
  there, at its place and with its content.
\<close>

definition store_ext :: "Store \<Rightarrow> Store \<Rightarrow> bool" where
  "store_ext st st' \<longleftrightarrow>
     prefix (policy_objs st) (policy_objs st') \<and> prefix (rule_objs st) (rule_objs st')
     \<and> prefix (values_objs st) (values_objs st')"

text \<open>
  A rule, and a policy, is fresh with respect to an earlier store when its object and
  the objects it refers to were allocated after that store was taken.
\<close>

definition fresh_rule :: "Store \<Rightarrow> Store \<Rightarrow> nat \<Rightarrow> bool" where
  "fresh_rule st0 st r \<longleftrightarrow>
     length (rule_objs st0) \<le> r \<and> r < length (rule_objs st)
     \<and> (\<forall>v \<in> set_option (obj_values (rule_objs st ! r)).
           length (values_objs st0) \<le> v \<and> v < length (values_objs st))"

definition fresh_policy :: "Store \<Rightarrow> Store \<Rightarrow> nat \<Rightarrow> bool" where
  "fresh_policy st0 st pr \<longleftrightarrow>
     length (policy_objs st0) \<le> pr \<and> pr < length (policy_objs st)
     \<and> list_all (fresh_rule st0 st) (policy_objs st ! pr)"

text \<open>
  The command owns a policy with respect to an earlier store when the store extends the
  earlier one and the policy is fresh: writing to such a policy cannot reach an object of
  the earlier store.
\<close>

definition owned :: "Store \<Rightarrow> Store \<Rightarrow> nat \<Rightarrow> bool" where
  "owned st0 st pr \<longleftrightarrow> store_ext st0 st \<and> fresh_policy st0 st pr"

text \<open>
  A policy in the store is well formed when its references point to objects of the store
  and nothing is shared: its rules are distinct objects and no two of them refer to the
  same \<^verbatim>\<open>values\<close> object.
\<close>

definition valid_rule :: "Store \<Rightarrow> nat \<Rightarrow> bool" where
  "valid_rule st r \<longleftrightarrow>
     r < length (rule_objs st)
     \<and> (\<forall>v \<in> set_option (obj_values (rule_objs st ! r)). v < length (values_objs st))"

definition unshared :: "Store \<Rightarrow> nat list \<Rightarrow> bool" where
  "unshared st rs \<longleftrightarrow>
     distinct rs
     \<and> (\<forall>r \<in> set rs. \<forall>r' \<in> set rs. \<forall>v \<in> set_option (obj_values (rule_objs st ! r)).
           obj_values (rule_objs st ! r') = Some v \<longrightarrow> r' = r)"

definition wf_policy :: "Store \<Rightarrow> nat \<Rightarrow> bool" where
  "wf_policy st pr \<longleftrightarrow>
     pr < length (policy_objs st)
     \<and> list_all (valid_rule st) (policy_objs st ! pr)
     \<and> unshared st (policy_objs st ! pr)"

section \<open>Example policies and requests\<close>

text \<open>Concrete inputs on which the theorems below are evaluated.\<close>

definition add_A :: Args where
  "add_A = \<lparr>arg_value = [''A''], arg_remove = False, arg_condition = None\<rparr>"

definition add_ABA :: Args where
  "add_ABA = \<lparr>arg_value = [''A'', ''B'', ''A''], arg_remove = False, arg_condition = None\<rparr>"

definition allow_all_c :: Args where
  "allow_all_c = \<lparr>arg_value = [], arg_remove = False, arg_condition = Some ''c''\<rparr>"

definition remove_nothing :: Args where
  "remove_nothing = \<lparr>arg_value = [], arg_remove = True, arg_condition = None\<rparr>"

definition remove_A_c :: Args where
  "remove_A_c = \<lparr>arg_value = [''A''], arg_remove = True, arg_condition = Some ''c''\<rparr>"

definition deny_all_policy :: Policy where
  "deny_all_policy =
     \<lparr>rules = [\<lparr>condition = None, allowAll = None, denyAll = Some True, rule_values = None\<rparr>]\<rparr>"

definition both_flags_policy :: Policy where
  "both_flags_policy =
     \<lparr>rules = [\<lparr>condition = None, allowAll = Some True, denyAll = Some True, rule_values = None\<rparr>]\<rparr>"

definition allows_B_policy :: Policy where
  "allows_B_policy =
     \<lparr>rules = [\<lparr>condition = None, allowAll = Some False, denyAll = None,
                 rule_values = Some \<lparr>allowedValues = [''B''], deniedValues = []\<rparr>\<rparr>]\<rparr>"

definition two_rule_policy :: Policy where
  "two_rule_policy =
     \<lparr>rules = [\<lparr>condition = Some ''c'', allowAll = None, denyAll = None,
                 rule_values = Some \<lparr>allowedValues = [''A''], deniedValues = []\<rparr>\<rparr>,
               \<lparr>condition = None, allowAll = None, denyAll = None,
                 rule_values = Some \<lparr>allowedValues = [''X''], deniedValues = []\<rparr>\<rparr>,
               \<lparr>condition = Some ''c'', allowAll = None, denyAll = None,
                 rule_values = Some \<lparr>allowedValues = [], deniedValues = [''B'']\<rparr>\<rparr>]\<rparr>"

definition allow_then_deny_policy :: Policy where
  "allow_then_deny_policy =
     \<lparr>rules = [\<lparr>condition = None, allowAll = Some True, denyAll = None, rule_values = None\<rparr>,
               \<lparr>condition = None, allowAll = None, denyAll = Some True, rule_values = None\<rparr>]\<rparr>"

definition deny_then_allow_policy :: Policy where
  "deny_then_allow_policy =
     \<lparr>rules = [\<lparr>condition = None, allowAll = None, denyAll = Some True, rule_values = None\<rparr>,
               \<lparr>condition = None, allowAll = Some True, denyAll = None, rule_values = None\<rparr>]\<rparr>"

definition allowed_A_and_deny_policy :: Policy where
  "allowed_A_and_deny_policy =
     \<lparr>rules = [\<lparr>condition = None, allowAll = None, denyAll = None,
                 rule_values = Some \<lparr>allowedValues = [''A''], deniedValues = []\<rparr>\<rparr>,
               \<lparr>condition = None, allowAll = None, denyAll = Some True, rule_values = None\<rparr>]\<rparr>"

definition ex_store :: Store where
  "ex_store = \<lparr>policy_objs = [[0, 1]],
     rule_objs = [\<lparr>obj_condition = None, obj_allowAll = Some False, obj_denyAll = None, obj_values = Some 0\<rparr>,
                  \<lparr>obj_condition = Some ''c'', obj_allowAll = None, obj_denyAll = None, obj_values = None\<rparr>],
     values_objs = [\<lparr>allowedValues = [''B''], deniedValues = [''A'']\<rparr>]\<rparr>"

definition deny_all_store :: Store where
  "deny_all_store = \<lparr>policy_objs = [[0]],
     rule_objs = [\<lparr>obj_condition = None, obj_allowAll = None, obj_denyAll = Some True, obj_values = None\<rparr>],
     values_objs = []\<rparr>"

definition allows_B_then_deny_store :: Store where
  "allows_B_then_deny_store = \<lparr>policy_objs = [[0, 1, 2]],
     rule_objs = [\<lparr>obj_condition = Some ''c'', obj_allowAll = Some True, obj_denyAll = None,
                    obj_values = None\<rparr>,
                  \<lparr>obj_condition = None, obj_allowAll = Some False, obj_denyAll = None,
                    obj_values = Some 0\<rparr>,
                  \<lparr>obj_condition = None, obj_allowAll = None, obj_denyAll = Some True,
                    obj_values = None\<rparr>],
     values_objs = [\<lparr>allowedValues = [''B''], deniedValues = [''A'']\<rparr>]\<rparr>"

section \<open>Basic facts\<close>

lemma fromkeys_snoc:
  "fromkeys (ks @ [k]) = (if k \<in> set (fromkeys ks) then fromkeys ks else fromkeys ks @ [k])"
  by (simp add: fromkeys_def)

lemma fromkeys_Nil: "fromkeys [] = []"
  by (simp add: fromkeys_def)

lemma set_fromkeys: "set (fromkeys ks) = set ks"
  by (induction ks rule: rev_induct) (auto simp: fromkeys_snoc fromkeys_Nil)

lemma fromkeys_first_occurrences: "fromkeys ks = rev (remdups (rev ks))"
  by (induction ks rule: rev_induct) (simp_all add: fromkeys_snoc fromkeys_Nil set_fromkeys)

lemma distinct_fromkeys: "distinct (fromkeys ks)"
  by (simp add: fromkeys_first_occurrences)

lemma fromkeys_empty_iff: "fromkeys ks = [] \<longleftrightarrow> ks = []"
  using set_fromkeys[of ks] by (metis set_empty)

lemma nth_filter_upt:
  "map ((!) xs) (filter (\<lambda>i. P (xs ! i)) [0..<length xs]) = filter P xs"
proof -
  have "filter P xs = filter P (map ((!) xs) [0..<length xs])"
    by (simp add: map_nth)
  also have "\<dots> = map ((!) xs) (filter (P \<circ> (!) xs) [0..<length xs])"
    by (simp only: filter_map)
  finally show ?thesis by (simp add: comp_def)
qed

lemma matching_rules:
  "map (rule_at p) (GetMatchingRulesFromPolicy p c) = filter (\<lambda>r. condition r = c) (rules p)"
  using nth_filter_upt[of "rules p" "\<lambda>r. condition r = c"]
  by (simp add: GetMatchingRulesFromPolicy_def rule_at_def[abs_def])

lemma matching_Nil_iff:
  "GetMatchingRulesFromPolicy p c = [] \<longleftrightarrow> filter (\<lambda>r. condition r = c) (rules p) = []"
  using matching_rules[of p c] by (metis map_is_Nil_conv)

lemma GetMissing_eq:
  "GetMissingAllowedValuesFromRules (Some rs) vs
     = fromkeys (filter (\<lambda>v. v \<notin> existing_allowed rs) vs)"
proof -
  have "set (concat (map (\<lambda>r. allowedValues (the (rule_values r))) (filter (\<lambda>r. rule_values r \<noteq> None) rs)))
     = existing_allowed rs"
    by (auto simp: existing_allowed_def split: option.splits)
  then show ?thesis unfolding GetMissingAllowedValuesFromRules_def Let_def by simp
qed

lemma scan_Raise_iff:
  "scan_rules rs = Raise \<longleftrightarrow>
     (\<exists>k < length rs. denyAll (rs ! k) = Some True \<and> (\<forall>j \<le> k. allowAll (rs ! j) \<noteq> Some True))"
proof (induction rs)
  case Nil then show ?case by simp
next
  case (Cons r rs)
  show ?case
  proof (cases "allowAll r = Some True")
    case True
    then show ?thesis by auto
  next
    case nA: False
    show ?thesis
    proof (cases "denyAll r = Some True")
      case True
      with nA show ?thesis by auto
    next
      case nD: False
      have "scan_rules (r # rs) = Raise \<longleftrightarrow> scan_rules rs = Raise" using nA nD by simp
      also have "\<dots> \<longleftrightarrow> (\<exists>k < length rs. denyAll (rs ! k) = Some True \<and> (\<forall>j \<le> k. allowAll (rs ! j) \<noteq> Some True))"
        by (rule Cons.IH)
      also have "\<dots> \<longleftrightarrow> (\<exists>k < length (r # rs). denyAll ((r # rs) ! k) = Some True \<and> (\<forall>j \<le> k. allowAll ((r # rs) ! j) \<noteq> Some True))"
        (is "?L \<longleftrightarrow> ?R")
      proof
        assume ?L
        then obtain k where k: "k < length rs" "denyAll (rs ! k) = Some True"
          "\<forall>j \<le> k. allowAll (rs ! j) \<noteq> Some True" by blast
        have "\<forall>j \<le> Suc k. allowAll ((r # rs) ! j) \<noteq> Some True"
          using k(3) nA by (auto simp: nth_Cons split: nat.splits)
        with k show ?R by (intro exI[of _ "Suc k"]) simp
      next
        assume ?R
        then obtain k where k: "k < length (r # rs)" "denyAll ((r # rs) ! k) = Some True"
          "\<forall>j \<le> k. allowAll ((r # rs) ! j) \<noteq> Some True" by blast
        from k(2) nD obtain k' where k': "k = Suc k'" by (cases k) auto
        have "\<forall>j \<le> k'. allowAll (rs ! j) \<noteq> Some True"
        proof (intro allI impI)
          fix j assume "j \<le> k'"
          then have "Suc j \<le> k" using k' by simp
          with k(3) show "allowAll (rs ! j) \<noteq> Some True" by fastforce
        qed
        with k k' show ?L by (intro exI[of _ k']) simp
      qed
      finally show ?thesis .
    qed
  qed
qed

lemma scan_FallThrough_iff:
  "scan_rules rs = FallThrough \<longleftrightarrow>
     (\<forall>r \<in> set rs. allowAll r \<noteq> Some True \<and> denyAll r \<noteq> Some True)"
  by (induction rs) auto

lemma hd_filter_upt:
  assumes "filter P xs \<noteq> []"
  shows "hd (filter (\<lambda>i. P (xs ! i)) [0..<length xs]) < length xs
       \<and> P (xs ! hd (filter (\<lambda>i. P (xs ! i)) [0..<length xs]))
       \<and> (\<forall>j < hd (filter (\<lambda>i. P (xs ! i)) [0..<length xs]). \<not> P (xs ! j))"
proof -
  define js where "js = filter (\<lambda>i. P (xs ! i)) [0..<length xs]"
  have "map ((!) xs) js = filter P xs"
    unfolding js_def by (rule nth_filter_upt)
  with assms have "js \<noteq> []" by auto
  then obtain i rest where js: "js = i # rest" by (cases js) auto
  have srt: "sorted js" unfolding js_def by (simp add: sorted_wrt_filter)
  have mem: "i \<in> set js" using js by simp
  then have i: "i < length xs" "P (xs ! i)" unfolding js_def by auto
  have "\<not> P (xs ! j)" if "j < i" for j
  proof
    assume "P (xs ! j)"
    with that i(1) have "j \<in> set js" unfolding js_def by simp
    with srt js have "i \<le> j" by auto
    with that show False by simp
  qed
  then have "hd js < length xs \<and> P (xs ! hd js) \<and> (\<forall>j < hd js. \<not> P (xs ! j))"
    using i js by simp
  then show ?thesis unfolding js_def .
qed

lemma first_matching_props:
  assumes "filter (\<lambda>r. condition r = c) (rules p) \<noteq> []"
  shows "first_matching p c < length (rules p)"
    and "condition (rules p ! first_matching p c) = c"
    and "\<forall>j < first_matching p c. condition (rules p ! j) \<noteq> c"
proof -
  have eq: "first_matching p c = hd (filter (\<lambda>i. condition (rules p ! i) = c) [0..<length (rules p)])"
    by (simp add: first_matching_def GetMatchingRulesFromPolicy_def rule_at_def)
  note h = hd_filter_upt[OF assms, folded eq]
  from h show "first_matching p c < length (rules p)" by blast
  from h show "condition (rules p ! first_matching p c) = c" by blast
  from h show "\<forall>j < first_matching p c. condition (rules p ! j) \<noteq> c" by blast
qed

lemma AddValues_unfold:
  "AddValues p a =
     (let np = RemoveDeniedValuesFromPolicy p a;
          ms = filter (\<lambda>r. condition r = arg_condition a) (rules np);
          missing = fromkeys (filter (\<lambda>v. v \<notin> existing_allowed ms) (arg_value a))
      in if missing = [] then Inr np
         else if ms = [] then
           Inr (np\<lparr>rules := rules np @ [append_allowed missing (empty_rule (arg_condition a))]\<rparr>)
         else (case scan_rules ms of
                 ReturnPolicy \<Rightarrow> Inr np
               | Raise \<Rightarrow> Inl OperationNotSupportedError
               | FallThrough \<Rightarrow>
                   Inr (np\<lparr>rules := (rules np)[first_matching np (arg_condition a) :=
                          append_allowed missing
                            ((rules np ! first_matching np (arg_condition a))
                               \<lparr>allowAll := None, denyAll := None\<rparr>)]\<rparr>)))"
proof -
  define np where "np = RemoveDeniedValuesFromPolicy p a"
  define c where "c = arg_condition a"
  define ms where "ms = filter (\<lambda>r. condition r = c) (rules np)"
  define missing where "missing = fromkeys (filter (\<lambda>v. v \<notin> existing_allowed ms) (arg_value a))"
  have m1: "map (rule_at np) (GetMatchingRulesFromPolicy np c) = ms"
    unfolding ms_def by (rule matching_rules)
  have m2: "GetMatchingRulesFromPolicy np c = [] \<longleftrightarrow> ms = []"
    unfolding ms_def by (rule matching_Nil_iff)
  have m3: "GetMissingAllowedValuesFromRules (Some ms) (arg_value a) = missing"
    unfolding missing_def by (rule GetMissing_eq)
  have "AddValues p a =
     (if missing = [] then Inr np
      else if ms = [] then
        Inr (np\<lparr>rules := rules np @ [append_allowed missing (empty_rule c)]\<rparr>)
      else (case scan_rules ms of
              ReturnPolicy \<Rightarrow> Inr np
            | Raise \<Rightarrow> Inl OperationNotSupportedError
            | FallThrough \<Rightarrow>
                Inr (np\<lparr>rules := (rules np)[first_matching np c :=
                       append_allowed missing
                         ((rules np ! first_matching np c)\<lparr>allowAll := None, denyAll := None\<rparr>)]\<rparr>)))"
  proof (cases "ms = []")
    case True
    then show ?thesis
      unfolding AddValues_def Let_def np_def[symmetric] c_def[symmetric] m1 m2 m3
      by (simp add: CreateRuleOnPolicy_def update_rule_def rule_at_def)
  next
    case False
    then have "first_matching np c < length (rules np)"
      unfolding ms_def by (rule first_matching_props(1))
    then have i: "hd (GetMatchingRulesFromPolicy np c) < length (rules np)"
      by (simp add: first_matching_def)
    from False i show ?thesis
      unfolding AddValues_def Let_def np_def[symmetric] c_def[symmetric] m1 m2 m3
      by (cases "scan_rules ms")
         (simp_all add: update_rule_def rule_at_def first_matching_def)
  qed
  then show ?thesis
    unfolding Let_def np_def c_def ms_def missing_def .
qed

lemma rules_RemoveValuesFromPolicy:
  "rules (RemoveValuesFromPolicy t p a) =
     filter (\<lambda>r. \<not> (condition r = arg_condition a \<and> dead_rule r))
       (map (\<lambda>r. if condition r = arg_condition a then remove_from_rule t (arg_value a) r else r)
          (rules p))"
  by (simp add: RemoveValuesFromPolicy_def Let_def)

lemma condition_remove_from_rule [simp]: "condition (remove_from_rule t vs r) = condition r"
  by (simp add: remove_from_rule_def)

lemma remove_from_values_idem:
  "remove_from_values t vs (remove_from_values t vs sv) = remove_from_values t vs sv"
  by (cases t) (simp_all add: remove_from_values_def)

lemma remove_from_rule_idem:
  "remove_from_rule t vs (remove_from_rule t vs r) = remove_from_rule t vs r"
  by (cases "rule_values r") (simp_all add: remove_from_rule_def remove_from_values_idem)

lemma settled_RemoveValuesFromPolicy:
  "r \<in> set (rules (RemoveValuesFromPolicy t p a)) \<Longrightarrow> settled t a r"
  by (auto simp: rules_RemoveValuesFromPolicy settled_def remove_from_rule_idem)

lemma RemoveValuesFromPolicy_settled:
  assumes "\<forall>r \<in> set (rules q). settled t a r"
  shows "RemoveValuesFromPolicy t q a = q"
proof -
  have m: "map (\<lambda>r. if condition r = arg_condition a then remove_from_rule t (arg_value a) r else r)
          (rules q) = rules q"
    using assms by (intro map_idI) (simp add: settled_def)
  have f: "filter (\<lambda>r. \<not> (condition r = arg_condition a \<and> dead_rule r)) (rules q) = rules q"
    using assms by (intro filter_True) (auto simp: settled_def)
  have "rules (RemoveValuesFromPolicy t q a) = rules q"
    by (simp only: rules_RemoveValuesFromPolicy m f)
  then show ?thesis by (simp add: RemoveValuesFromPolicy_def Let_def m f)
qed

lemma RemoveValuesFromPolicy_idem:
  "RemoveValuesFromPolicy t (RemoveValuesFromPolicy t p a) a = RemoveValuesFromPolicy t p a"
  by (rule RemoveValuesFromPolicy_settled) (simp add: settled_RemoveValuesFromPolicy)

lemma AddValues_after_removal:
  "AddValues (RemoveDeniedValuesFromPolicy p a) a = AddValues p a"
  by (simp only: AddValues_unfold RemoveDeniedValuesFromPolicy_def RemoveValuesFromPolicy_idem)

lemma AddValues_nothing_to_do:
  assumes "\<forall>r \<in> set (rules q). settled Denied a r"
    and "set (arg_value a) \<subseteq> existing_allowed (filter (\<lambda>r. condition r = arg_condition a) (rules q))"
  shows "AddValues q a = Inr q"
proof -
  have "RemoveDeniedValuesFromPolicy q a = q"
    unfolding RemoveDeniedValuesFromPolicy_def using assms(1) by (rule RemoveValuesFromPolicy_settled)
  moreover have "filter (\<lambda>v. v \<notin> existing_allowed (filter (\<lambda>r. condition r = arg_condition a) (rules q)))
      (arg_value a) = []"
    using assms(2) by (auto simp: filter_empty_conv)
  ultimately show ?thesis
    by (simp add: AddValues_unfold[of q] fromkeys_Nil)
qed

lemma remove_from_rule_fixed_iff:
  "remove_from_rule t vs r = r \<longleftrightarrow>
     (\<forall>sv. rule_values r = Some sv \<longrightarrow> remove_from_values t vs sv = sv)"
  by (cases r) (auto simp: remove_from_rule_def map_option_case split: option.splits)

lemma remove_denied_fixed_iff:
  "remove_from_values Denied vs sv = sv \<longleftrightarrow>
     filter (\<lambda>v. v \<notin> set vs) (deniedValues sv) = deniedValues sv"
  by (cases sv) (simp add: remove_from_values_def)

lemma settled_append_allowed:
  assumes "settled Denied a r" "condition r = arg_condition a" "missing \<noteq> []"
  shows "settled Denied a (append_allowed missing (r\<lparr>allowAll := None, denyAll := None\<rparr>))"
proof -
  from assms(1,2) have fx: "\<forall>sv. rule_values r = Some sv \<longrightarrow>
      filter (\<lambda>v. v \<notin> set (arg_value a)) (deniedValues sv) = deniedValues sv"
    by (simp add: settled_def remove_from_rule_fixed_iff remove_denied_fixed_iff)
  have "remove_from_rule Denied (arg_value a)
          (append_allowed missing (r\<lparr>allowAll := None, denyAll := None\<rparr>))
        = append_allowed missing (r\<lparr>allowAll := None, denyAll := None\<rparr>)"
    unfolding remove_from_rule_fixed_iff remove_denied_fixed_iff
    using fx by (cases "rule_values r") (auto simp: append_allowed_def)
  moreover have "\<not> dead_rule (append_allowed missing (r\<lparr>allowAll := None, denyAll := None\<rparr>))"
    using assms(3) by (cases "rule_values r") (simp_all add: append_allowed_def dead_rule_def)
  ultimately show ?thesis by (simp add: settled_def)
qed

lemma settled_new_rule:
  "missing \<noteq> [] \<Longrightarrow> settled Denied a (append_allowed missing (empty_rule c))"
  by (simp add: settled_def append_allowed_def remove_from_rule_def remove_from_values_def
      dead_rule_def empty_rule_def)

lemma existing_allowed_append_allowed:
  "existing_allowed [append_allowed missing r]
     = existing_allowed [r] \<union> set missing"
  by (cases "rule_values r") (auto simp: existing_allowed_def append_allowed_def)

lemma existing_allowed_clear [simp]:
  "existing_allowed [r\<lparr>allowAll := x, denyAll := y\<rparr>] = existing_allowed [r]"
  by (simp add: existing_allowed_def)

lemma existing_allowed_mem:
  "v \<in> existing_allowed rs \<longleftrightarrow> (\<exists>r \<in> set rs. v \<in> existing_allowed [r])"
  by (auto simp: existing_allowed_def)

lemma condition_append_allowed [simp]: "condition (append_allowed m r) = condition r"
  by (simp add: append_allowed_def Let_def)

lemma existing_allowed_update:
  assumes i: "i < length xs" and ci: "condition (xs ! i) = c"
  shows "existing_allowed (filter (\<lambda>r. condition r = c) xs) \<union> set missing
     \<subseteq> existing_allowed (filter (\<lambda>r. condition r = c)
          (xs[i := append_allowed missing ((xs ! i)\<lparr>allowAll := None, denyAll := None\<rparr>)]))"
    (is "_ \<subseteq> existing_allowed (filter _ (xs[i := ?r']))")
proof
  fix v assume v: "v \<in> existing_allowed (filter (\<lambda>r. condition r = c) xs) \<union> set missing"
  have r'_in: "?r' \<in> set (filter (\<lambda>r. condition r = c) (xs[i := ?r']))"
    using i ci by (auto simp: set_update_memI)
  have r'_has: "existing_allowed [?r'] = existing_allowed [xs ! i] \<union> set missing"
    by (simp add: existing_allowed_append_allowed)
  from v show "v \<in> existing_allowed (filter (\<lambda>r. condition r = c) (xs[i := ?r']))"
  proof
    assume "v \<in> set missing"
    with r'_in r'_has show ?thesis by (subst existing_allowed_mem) blast
  next
    assume "v \<in> existing_allowed (filter (\<lambda>r. condition r = c) xs)"
    then obtain r where r: "r \<in> set xs" "condition r = c" "v \<in> existing_allowed [r]"
      by (subst (asm) existing_allowed_mem) auto
    from r(1) obtain j where j: "j < length xs" "xs ! j = r" by (auto simp: in_set_conv_nth)
    show ?thesis
    proof (cases "j = i")
      case True
      with j r(3) r'_has have "v \<in> existing_allowed [?r']" by simp
      with r'_in show ?thesis by (subst existing_allowed_mem) blast
    next
      case False
      with j have "xs[i := ?r'] ! j = r" "j < length (xs[i := ?r'])" by simp_all
      then have "r \<in> set (xs[i := ?r'])" by (metis nth_mem)
      with r(2,3) show ?thesis by (subst existing_allowed_mem) auto
    qed
  qed
qed

lemma vals_covered:
  "set vs \<subseteq> E \<union> set (fromkeys (filter (\<lambda>v. v \<notin> E) vs))"
  by (auto simp: set_fromkeys)

lemma scan_Return_iff:
  "scan_rules rs = ReturnPolicy \<longleftrightarrow>
     (\<exists>k < length rs. allowAll (rs ! k) = Some True \<and> (\<forall>j < k. denyAll (rs ! j) \<noteq> Some True))"
proof (induction rs)
  case Nil then show ?case by simp
next
  case (Cons r rs)
  show ?case
  proof (cases "allowAll r = Some True")
    case True
    then have "0 < length (r # rs) \<and> allowAll ((r # rs) ! 0) = Some True
        \<and> (\<forall>j < 0. denyAll ((r # rs) ! j) \<noteq> Some True)" by simp
    then have "\<exists>k < length (r # rs). allowAll ((r # rs) ! k) = Some True
        \<and> (\<forall>j < k. denyAll ((r # rs) ! j) \<noteq> Some True)" by blast
    with True show ?thesis by simp
  next
    case nA: False
    show ?thesis
    proof (cases "denyAll r = Some True")
      case True
      have "\<not> (\<exists>k < length (r # rs). allowAll ((r # rs) ! k) = Some True
        \<and> (\<forall>j < k. denyAll ((r # rs) ! j) \<noteq> Some True))"
      proof
        assume "\<exists>k < length (r # rs). allowAll ((r # rs) ! k) = Some True
          \<and> (\<forall>j < k. denyAll ((r # rs) ! j) \<noteq> Some True)"
        then obtain k where k: "allowAll ((r # rs) ! k) = Some True"
          "\<forall>j < k. denyAll ((r # rs) ! j) \<noteq> Some True" by blast
        from k(1) nA have "0 < k" by (cases k) auto
        with k(2) have "denyAll ((r # rs) ! 0) \<noteq> Some True" by blast
        with True show False by simp
      qed
      with nA True show ?thesis by simp
    next
      case nD: False
      have "scan_rules (r # rs) = ReturnPolicy \<longleftrightarrow> scan_rules rs = ReturnPolicy"
        using nA nD by simp
      also have "\<dots> \<longleftrightarrow> (\<exists>k < length rs. allowAll (rs ! k) = Some True
          \<and> (\<forall>j < k. denyAll (rs ! j) \<noteq> Some True))"
        by (rule Cons.IH)
      also have "\<dots> \<longleftrightarrow> (\<exists>k < length (r # rs). allowAll ((r # rs) ! k) = Some True
          \<and> (\<forall>j < k. denyAll ((r # rs) ! j) \<noteq> Some True))"
        (is "?L \<longleftrightarrow> ?R")
      proof
        assume ?L
        then obtain k where k: "k < length rs" "allowAll (rs ! k) = Some True"
          "\<forall>j < k. denyAll (rs ! j) \<noteq> Some True" by blast
        have "\<forall>j < Suc k. denyAll ((r # rs) ! j) \<noteq> Some True"
          using k(3) nD by (auto simp: nth_Cons split: nat.splits)
        with k show ?R by (intro exI[of _ "Suc k"]) simp
      next
        assume ?R
        then obtain k where k: "k < length (r # rs)" "allowAll ((r # rs) ! k) = Some True"
          "\<forall>j < k. denyAll ((r # rs) ! j) \<noteq> Some True" by blast
        from k(2) nA obtain k' where k': "k = Suc k'" by (cases k) auto
        have "\<forall>j < k'. denyAll (rs ! j) \<noteq> Some True"
        proof (intro allI impI)
          fix j assume "j < k'"
          then have "Suc j < k" using k' by simp
          with k(3) show "denyAll (rs ! j) \<noteq> Some True" by fastforce
        qed
        with k k' show ?L by (intro exI[of _ k']) simp
      qed
      finally show ?thesis .
    qed
  qed
qed

lemma missing_Nil_iff:
  "fromkeys (filter (\<lambda>v. v \<notin> E) vs) = [] \<longleftrightarrow> set vs \<subseteq> E"
  by (auto simp: fromkeys_empty_iff filter_empty_conv)

lemma append_allowed_eq:
  "append_allowed missing r =
     r\<lparr>rule_values := Some
        \<lparr>allowedValues = (case rule_values r of None \<Rightarrow> [] | Some sv \<Rightarrow> allowedValues sv) @ missing,
         deniedValues = (case rule_values r of None \<Rightarrow> [] | Some sv \<Rightarrow> deniedValues sv)\<rparr>\<rparr>"
  by (cases "rule_values r") (simp_all add: append_allowed_def)

lemma AddValues_cases:
  fixes p :: Policy and a :: Args
  defines "np \<equiv> RemoveDeniedValuesFromPolicy p a"
  defines "ms \<equiv> filter (\<lambda>r. condition r = arg_condition a) (rules np)"
  defines "missing \<equiv> GetMissingAllowedValuesFromRules (Some ms) (arg_value a)"
  shows "missing = [] \<Longrightarrow> AddValues p a = Inr np"
    and "missing \<noteq> [] \<Longrightarrow> ms = [] \<Longrightarrow>
           AddValues p a = Inr (np\<lparr>rules := rules np @
             [append_allowed missing (empty_rule (arg_condition a))]\<rparr>)"
    and "missing \<noteq> [] \<Longrightarrow> ms \<noteq> [] \<Longrightarrow> scan_rules ms = ReturnPolicy \<Longrightarrow> AddValues p a = Inr np"
    and "missing \<noteq> [] \<Longrightarrow> ms \<noteq> [] \<Longrightarrow> scan_rules ms = Raise \<Longrightarrow>
           AddValues p a = Inl OperationNotSupportedError"
    and "missing \<noteq> [] \<Longrightarrow> ms \<noteq> [] \<Longrightarrow> scan_rules ms = FallThrough \<Longrightarrow>
           AddValues p a = Inr (np\<lparr>rules := (rules np)[first_matching np (arg_condition a) :=
             append_allowed missing
               ((rules np ! first_matching np (arg_condition a))\<lparr>allowAll := None, denyAll := None\<rparr>)]\<rparr>)"
  unfolding np_def ms_def missing_def GetMissing_eq
  by (simp_all add: AddValues_unfold[of p a] Let_def)

lemma missing_eq_Nil_iff:
  "GetMissingAllowedValuesFromRules (Some ms) vs = [] \<longleftrightarrow> set vs \<subseteq> existing_allowed ms"
  by (simp add: GetMissing_eq missing_Nil_iff)

lemma AddValues_not_invalid: "AddValues p a \<noteq> Inl InvalidInputError"
  by (simp add: AddValues_unfold Let_def split: scan_result.splits)

lemma UpdatePolicy_not_invalid: "UpdatePolicy p a \<noteq> Inl InvalidInputError"
  by (simp add: UpdatePolicy_def AddValues_not_invalid)

lemma Reconcile_add: "arg_value a \<noteq> [] \<Longrightarrow> \<not> arg_remove a \<Longrightarrow> Reconcile p a = AddValues p a"
  by (simp add: Reconcile_def Run_def UpdatePolicy_def)

lemma AllowAllValues_eq:
  "AllowAllValues p a =
     \<lparr>rules = filter (\<lambda>r. condition r \<noteq> arg_condition a) (rules p)
               @ [allow_all_rule (arg_condition a)]\<rparr>"
proof -
  have "rules (AllowAllValues p a) =
      filter (\<lambda>r. condition r \<noteq> arg_condition a) (rules p) @ [allow_all_rule (arg_condition a)]"
    by (simp add: AllowAllValues_def CreateRuleOnPolicy_def GetNonMatchingRulesFromPolicy_def
        update_rule_def rule_at_def empty_rule_def allow_all_rule_def)
  then show ?thesis by (cases "AllowAllValues p a") simp
qed

lemma fromkeys_two: "fromkeys [x, y] = (if x = y then [x] else [x, y])"
  by (simp add: fromkeys_def)

lemma Reconcile_remove:
  "arg_value a \<noteq> [] \<Longrightarrow> arg_remove a \<Longrightarrow> Reconcile p a = Inr (RemoveAllowedValuesFromPolicy p a)"
  by (simp add: Reconcile_def Run_def UpdatePolicy_def)

lemma no_dead_rule_after_removal:
  "r \<in> set (rules (RemoveValuesFromPolicy t p a)) \<Longrightarrow> condition r = arg_condition a \<Longrightarrow>
     \<not> dead_rule r"
  using settled_RemoveValuesFromPolicy[of r t p a] by (simp add: settled_def)

lemma AddValues_target:
  fixes p :: Policy and a :: Args
  defines "np \<equiv> RemoveDeniedValuesFromPolicy p a"
  defines "ms \<equiv> filter (\<lambda>r. condition r = arg_condition a) (rules np)"
  defines "missing \<equiv> GetMissingAllowedValuesFromRules (Some ms) (arg_value a)"
  assumes "ms \<noteq> []" and "missing \<noteq> []"
    and "\<forall>r \<in> set ms. allowAll r \<noteq> Some True \<and> denyAll r \<noteq> Some True"
  shows "\<exists>i < length (rules np). condition (rules np ! i) = arg_condition a
           \<and> (\<forall>j < i. condition (rules np ! j) \<noteq> arg_condition a)
           \<and> AddValues p a = Inr (np\<lparr>rules := (rules np)[i :=
                (rules np ! i)\<lparr>allowAll := None, denyAll := None,
                  rule_values := Some
                    \<lparr>allowedValues = (case rule_values (rules np ! i) of None \<Rightarrow> []
                                       | Some sv \<Rightarrow> allowedValues sv) @ missing,
                     deniedValues = (case rule_values (rules np ! i) of None \<Rightarrow> []
                                      | Some sv \<Rightarrow> deniedValues sv)\<rparr>\<rparr>]\<rparr>)"
proof -
  let ?i = "first_matching np (arg_condition a)"
  from assms(4) have i: "?i < length (rules np)" "condition (rules np ! ?i) = arg_condition a"
    "\<forall>j < ?i. condition (rules np ! j) \<noteq> arg_condition a"
    unfolding ms_def by (rule first_matching_props)+
  from assms(6) have "scan_rules ms = FallThrough" by (simp add: scan_FallThrough_iff)
  with assms(4,5) have "AddValues p a = Inr (np\<lparr>rules := (rules np)[?i :=
             append_allowed missing ((rules np ! ?i)\<lparr>allowAll := None, denyAll := None\<rparr>)]\<rparr>)"
    unfolding ms_def np_def missing_def by (intro AddValues_cases(5))
  then have "AddValues p a = Inr (np\<lparr>rules := (rules np)[?i :=
                (rules np ! ?i)\<lparr>allowAll := None, denyAll := None,
                  rule_values := Some
                    \<lparr>allowedValues = (case rule_values (rules np ! ?i) of None \<Rightarrow> []
                                       | Some sv \<Rightarrow> allowedValues sv) @ missing,
                     deniedValues = (case rule_values (rules np ! ?i) of None \<Rightarrow> []
                                      | Some sv \<Rightarrow> deniedValues sv)\<rparr>\<rparr>]\<rparr>)"
    by (simp add: append_allowed_eq)
  with i show ?thesis by blast
qed

section \<open>The store: what the command leaves alone\<close>

lemma prefix_list_update:
  "prefix xs ys \<Longrightarrow> length xs \<le> i \<Longrightarrow> prefix xs (ys[i := y])"
  by (auto simp: prefix_def list_update_append)

lemma prefix_nth: "prefix xs ys \<Longrightarrow> i < length xs \<Longrightarrow> ys ! i = xs ! i"
  by (auto simp: prefix_def nth_append)

lemma ext_refl [simp]: "store_ext st st"
  by (simp add: store_ext_def)

lemma ext_trans: "store_ext st0 st1 \<Longrightarrow> store_ext st1 st2 \<Longrightarrow> store_ext st0 st2"
  unfolding store_ext_def by (meson prefix_order.order_trans)

lemma ext_lengths:
  assumes "store_ext st st'"
  shows "length (policy_objs st) \<le> length (policy_objs st')"
    and "length (rule_objs st) \<le> length (rule_objs st')"
    and "length (values_objs st) \<le> length (values_objs st')"
  using assms by (simp_all add: store_ext_def prefix_length_le)

lemma fresh_rule_later:
  assumes "fresh_rule st0 st r" "store_ext st st'"
  shows "fresh_rule st0 st' r"
proof -
  from assms(1) have r: "r < length (rule_objs st)" by (simp add: fresh_rule_def)
  with assms(2) have same: "rule_objs st' ! r = rule_objs st ! r"
    by (simp add: store_ext_def prefix_nth)
  from assms(1) r same ext_lengths[OF assms(2)] show ?thesis
    by (auto simp: fresh_rule_def split: option.splits)
qed

lemma fresh_rule_earlier:
  assumes "fresh_rule st1 st r" "store_ext st0 st1"
  shows "fresh_rule st0 st r"
  using assms(1) ext_lengths[OF assms(2)]
  by (auto simp: fresh_rule_def split: option.splits)

lemma fresh_policy_earlier:
  assumes "fresh_policy st1 st pr" "store_ext st0 st1"
  shows "fresh_policy st0 st pr"
  using assms(1) ext_lengths[OF assms(2)] fresh_rule_earlier[OF _ assms(2)]
  by (auto simp: fresh_policy_def list_all_iff)

lemma fresh_rule_same:
  "rule_objs st' = rule_objs st \<Longrightarrow> length (values_objs st') = length (values_objs st) \<Longrightarrow>
     fresh_rule st0 st' r = fresh_rule st0 st r"
  by (simp add: fresh_rule_def split: option.splits)

lemma deepcopy_rule_fresh:
  assumes "deepcopy_rule st r = (r', st')"
  shows "store_ext st st'" and "fresh_rule st st' r'"
  using assms
  by (auto simp: deepcopy_rule_def Let_def store_ext_def fresh_rule_def nth_append
      split: option.splits)

lemma deepcopy_rules_fresh:
  "deepcopy_rules st rs = (rs', st') \<Longrightarrow> store_ext st st' \<and> list_all (fresh_rule st st') rs'"
proof (induction rs arbitrary: st rs' st')
  case Nil
  then show ?case by simp
next
  case (Cons r rs)
  obtain r1 st1 where c1: "deepcopy_rule st r = (r1, st1)" by (cases "deepcopy_rule st r")
  obtain rs2 st2 where c2: "deepcopy_rules st1 rs = (rs2, st2)" by (cases "deepcopy_rules st1 rs")
  from Cons.prems c1 c2 have res: "rs' = r1 # rs2" "st' = st2" by simp_all
  from deepcopy_rule_fresh[OF c1] have e1: "store_ext st st1" and f1: "fresh_rule st st1 r1" .
  from Cons.IH[OF c2] have e2: "store_ext st1 st2" and f2: "list_all (fresh_rule st1 st2) rs2" by simp_all
  have "fresh_rule st st2 r1" using f1 e2 by (rule fresh_rule_later)
  moreover have "list_all (fresh_rule st st2) rs2"
    using f2 e1 by (auto simp: list_all_iff intro: fresh_rule_earlier)
  ultimately show ?case using e1 e2 res by (auto intro: ext_trans)
qed

lemma deepcopy_fresh:
  assumes "deepcopy st pr = (pr', st')"
  shows "store_ext st st'" and "fresh_policy st st' pr'"
proof -
  obtain rs1 st1 where c: "deepcopy_rules st (policy_objs st ! pr) = (rs1, st1)"
    by (cases "deepcopy_rules st (policy_objs st ! pr)")
  have "deepcopy st pr = (length (policy_objs st1), st1\<lparr>policy_objs := policy_objs st1 @ [rs1]\<rparr>)"
    unfolding deepcopy_def c by simp
  with assms have pr': "pr' = length (policy_objs st1)"
    and st': "st' = st1\<lparr>policy_objs := policy_objs st1 @ [rs1]\<rparr>"
    by simp_all
  from deepcopy_rules_fresh[OF c] have e: "store_ext st st1" and f: "list_all (fresh_rule st st1) rs1"
    by simp_all
  from e show "store_ext st st'" by (simp add: st' store_ext_def)
  have same: "fresh_rule st st' r = fresh_rule st st1 r" for r
    by (rule fresh_rule_same) (simp_all add: st')
  have "length (policy_objs st) \<le> pr'"
    using ext_lengths(1)[OF e] by (simp add: pr')
  moreover have "pr' < length (policy_objs st')" by (simp add: pr' st')
  moreover have "policy_objs st' ! pr' = rs1" by (simp add: pr' st')
  moreover have "list_all (fresh_rule st st') rs1"
    using f by (simp add: list_all_iff same)
  ultimately show "fresh_policy st st' pr'"
    by (simp add: fresh_policy_def)
qed

lemma owned_earlier: "owned st1 st pr \<Longrightarrow> store_ext st0 st1 \<Longrightarrow> owned st0 st pr"
  unfolding owned_def by (meson ext_trans fresh_policy_earlier)

lemma owned_fresh_rule:
  "owned st0 st pr \<Longrightarrow> r \<in> set (policy_objs st ! pr) \<Longrightarrow> fresh_rule st0 st r"
  by (simp add: owned_def fresh_policy_def list_all_iff)

lemma owned_values_write:
  assumes "owned st0 st pr" "length (values_objs st0) \<le> v"
  shows "owned st0 (st\<lparr>values_objs := (values_objs st)[v := x]\<rparr>) pr"
proof -
  let ?st' = "st\<lparr>values_objs := (values_objs st)[v := x]\<rparr>"
  have "store_ext st0 ?st'"
    using assms by (simp add: owned_def store_ext_def prefix_list_update)
  moreover have "fresh_rule st0 ?st' r = fresh_rule st0 st r" for r
    by (rule fresh_rule_same) simp_all
  then have "fresh_policy st0 ?st' pr"
    using assms(1) by (simp add: owned_def fresh_policy_def list_all_iff)
  ultimately show ?thesis by (simp add: owned_def)
qed

lemma strip_rule_st_same [simp]:
  "rule_objs (strip_rule_st t vs st r) = rule_objs st"
  "policy_objs (strip_rule_st t vs st r) = policy_objs st"
  "length (values_objs (strip_rule_st t vs st r)) = length (values_objs st)"
  by (simp_all add: strip_rule_st_def split: option.splits)

lemma owned_strip_rule_st:
  assumes "owned st0 st pr" "fresh_rule st0 st r"
  shows "owned st0 (strip_rule_st t vs st r) pr"
proof (cases "obj_values (rule_objs st ! r)")
  case None
  with assms(1) show ?thesis by (simp add: strip_rule_st_def)
next
  case (Some v)
  with assms(2) have "length (values_objs st0) \<le> v" by (simp add: fresh_rule_def)
  with assms(1) Some show ?thesis by (simp add: strip_rule_st_def owned_values_write)
qed

lemma foldl_strip_rule_st_same [simp]:
  "rule_objs (foldl (strip_rule_st t vs) st rs) = rule_objs st"
  "policy_objs (foldl (strip_rule_st t vs) st rs) = policy_objs st"
  "length (values_objs (foldl (strip_rule_st t vs) st rs)) = length (values_objs st)"
  by (induction rs arbitrary: st) simp_all

lemma owned_foldl_strip_rule_st:
  "owned st0 st pr \<Longrightarrow> list_all (fresh_rule st0 st) rs \<Longrightarrow>
     owned st0 (foldl (strip_rule_st t vs) st rs) pr"
proof (induction rs arbitrary: st)
  case Nil
  then show ?case by simp
next
  case (Cons r rs)
  have same: "fresh_rule st0 (strip_rule_st t vs st r) r' = fresh_rule st0 st r'" for r'
    by (rule fresh_rule_same) simp_all
  from Cons.prems have "owned st0 (strip_rule_st t vs st r) pr"
    by (simp add: owned_strip_rule_st)
  moreover from Cons.prems have "list_all (fresh_rule st0 (strip_rule_st t vs st r)) rs"
    by (simp add: list_all_iff same)
  ultimately show ?case using Cons.IH by simp
qed

lemma owned_policy_write:
  assumes "owned st0 st pr" "set rs \<subseteq> set (policy_objs st ! pr)"
  shows "owned st0 (st\<lparr>policy_objs := (policy_objs st)[pr := rs]\<rparr>) pr"
proof -
  let ?st' = "st\<lparr>policy_objs := (policy_objs st)[pr := rs]\<rparr>"
  from assms(1) have pr: "length (policy_objs st0) \<le> pr" "pr < length (policy_objs st)"
    by (simp_all add: owned_def fresh_policy_def)
  have "store_ext st0 ?st'"
    using assms(1) pr by (simp add: owned_def store_ext_def prefix_list_update)
  moreover have same: "fresh_rule st0 ?st' r = fresh_rule st0 st r" for r
    by (rule fresh_rule_same) simp_all
  have "list_all (fresh_rule st0 ?st') rs"
    using assms owned_fresh_rule[OF assms(1)] by (auto simp: list_all_iff same)
  with pr have "fresh_policy st0 ?st' pr" by (simp add: fresh_policy_def)
  ultimately show ?thesis by (simp add: owned_def)
qed

lemma owned_rule_write:
  assumes "owned st0 st pr" "length (rule_objs st0) \<le> r"
    and "obj_values ro = obj_values (rule_objs st ! r)"
  shows "owned st0 (st\<lparr>rule_objs := (rule_objs st)[r := ro]\<rparr>) pr"
proof -
  let ?st' = "st\<lparr>rule_objs := (rule_objs st)[r := ro]\<rparr>"
  have "store_ext st0 ?st'"
    using assms(1,2) by (simp add: owned_def store_ext_def prefix_list_update)
  moreover have "fresh_rule st0 ?st' r'" if "fresh_rule st0 st r'" for r'
    using that assms(3) by (cases "r' = r") (simp_all add: fresh_rule_def)
  then have "fresh_policy st0 ?st' pr"
    using assms(1) by (simp add: owned_def fresh_policy_def list_all_iff)
  ultimately show ?thesis by (simp add: owned_def)
qed

lemma owned_CreateRuleOnPolicy_st:
  assumes "owned st0 st pr" "CreateRuleOnPolicy_st st pr c = (r, pr', st')"
  shows "owned st0 st' pr'" and "pr' = pr" and "fresh_rule st0 st' r"
proof -
  let ?ro = "\<lparr>obj_condition = c, obj_allowAll = None, obj_denyAll = None, obj_values = None\<rparr>"
  let ?st1 = "st\<lparr>rule_objs := rule_objs st @ [?ro]\<rparr>"
  from assms(2) have res: "r = length (rule_objs st)" "pr' = pr"
    "st' = ?st1\<lparr>policy_objs := (policy_objs ?st1)[pr := policy_objs ?st1 ! pr @ [r]]\<rparr>"
    by (auto simp: CreateRuleOnPolicy_st_def Let_def)
  from assms(1) have e: "store_ext st0 st" and pr: "length (policy_objs st0) \<le> pr"
    "pr < length (policy_objs st)" and f: "list_all (fresh_rule st0 st) (policy_objs st ! pr)"
    by (simp_all add: owned_def fresh_policy_def)
  have e1: "store_ext st ?st1" by (simp add: store_ext_def)
  have fr: "fresh_rule st0 st' r"
    using ext_lengths(2)[OF e] by (simp add: res fresh_rule_def)
  have old: "fresh_rule st0 st' r'" if "fresh_rule st0 st r'" for r'
  proof -
    from that e1 have "fresh_rule st0 ?st1 r'" by (rule fresh_rule_later)
    moreover have "fresh_rule st0 st' r' = fresh_rule st0 ?st1 r'"
      by (rule fresh_rule_same) (simp_all add: res)
    ultimately show ?thesis by simp
  qed
  have "store_ext st0 st'"
    using e pr by (simp add: res store_ext_def prefix_list_update)
  moreover have "fresh_policy st0 st' pr"
  proof -
    have "policy_objs st' ! pr = policy_objs st ! pr @ [r]" using pr by (simp add: res(3))
    moreover have "length (policy_objs st') = length (policy_objs st)" by (simp add: res(3))
    ultimately show ?thesis
      using pr f fr old by (simp add: fresh_policy_def list_all_iff)
  qed
  ultimately show "owned st0 st' pr'" by (simp add: owned_def res(2))
  show "pr' = pr" by (rule res(2))
  show "fresh_rule st0 st' r" by (rule fr)
qed

lemma owned_append_allowed_st:
  assumes "owned st0 st pr" "fresh_rule st0 st r"
  shows "owned st0 (append_allowed_st m st r) pr"
proof (cases "obj_values (rule_objs st ! r)")
  case (Some v)
  with assms(2) have "length (values_objs st0) \<le> v" by (simp add: fresh_rule_def)
  with assms(1) Some show ?thesis by (simp add: append_allowed_st_def owned_values_write)
next
  case None
  let ?v = "length (values_objs st)"
  let ?st1 = "st\<lparr>values_objs := values_objs st @ [\<lparr>allowedValues = [], deniedValues = []\<rparr>],
                 rule_objs := (rule_objs st)[r := (rule_objs st ! r)\<lparr>obj_values := Some ?v\<rparr>]\<rparr>"
  from assms(1) have e: "store_ext st0 st" and pr: "length (policy_objs st0) \<le> pr"
    "pr < length (policy_objs st)" and f: "list_all (fresh_rule st0 st) (policy_objs st ! pr)"
    by (simp_all add: owned_def fresh_policy_def)
  from assms(2) have r: "length (rule_objs st0) \<le> r" "r < length (rule_objs st)"
    by (simp_all add: fresh_rule_def)
  have v: "length (values_objs st0) \<le> ?v" by (rule ext_lengths(3)[OF e])
  have "store_ext st0 ?st1"
    using e r by (simp add: store_ext_def prefix_list_update)
  moreover have "fresh_rule st0 ?st1 r'" if "fresh_rule st0 st r'" for r'
    using that v r by (cases "r' = r") (auto simp: fresh_rule_def split: option.splits)
  then have "fresh_policy st0 ?st1 pr"
    using pr f by (simp add: fresh_policy_def list_all_iff)
  ultimately have "owned st0 ?st1 pr" by (simp add: owned_def)
  from owned_values_write[OF this v] None show ?thesis
    by (simp add: append_allowed_st_def)
qed

lemma set_GetMatchingRulesFromPolicy_st:
  "set (GetMatchingRulesFromPolicy_st st pr c) \<subseteq> set (policy_objs st ! pr)"
  by (auto simp: GetMatchingRulesFromPolicy_st_def)

lemma owned_matching_rules:
  "owned st0 st pr \<Longrightarrow> list_all (fresh_rule st0 st) (GetMatchingRulesFromPolicy_st st pr c)"
  using set_GetMatchingRulesFromPolicy_st[of st pr c]
  by (auto simp: list_all_iff dest: owned_fresh_rule)

lemma owned_deepcopy:
  "deepcopy st pr = (pr', st') \<Longrightarrow> owned st st' pr'"
  by (simp add: owned_def deepcopy_fresh)

lemma owned_RemoveValuesFromPolicy_st:
  assumes "RemoveValuesFromPolicy_st t st pr a = (pr', st')"
  shows "owned st st' pr'"
proof -
  obtain np st1 where c: "deepcopy st pr = (np, st1)" by (cases "deepcopy st pr")
  define st2 where "st2 = foldl (strip_rule_st t (arg_value a)) st1
      (GetMatchingRulesFromPolicy_st st1 np (arg_condition a))"
  define keep where "keep = filter (\<lambda>r. \<not> (obj_condition (rule_objs st2 ! r) = arg_condition a
                                   \<and> dead_rule (read_rule st2 r))) (policy_objs st2 ! np)"
  have "RemoveValuesFromPolicy_st t st pr a
      = (np, st2\<lparr>policy_objs := (policy_objs st2)[np := keep]\<rparr>)"
    unfolding RemoveValuesFromPolicy_st_def c keep_def st2_def by (simp add: Let_def)
  with assms have res: "pr' = np" "st' = st2\<lparr>policy_objs := (policy_objs st2)[np := keep]\<rparr>"
    by auto
  have o1: "owned st st1 np" using c by (rule owned_deepcopy)
  then have "owned st st2 np"
    unfolding st2_def by (intro owned_foldl_strip_rule_st owned_matching_rules)
  moreover have "set keep \<subseteq> set (policy_objs st2 ! np)" by (auto simp: keep_def)
  ultimately show ?thesis unfolding res by (rule owned_policy_write)
qed

lemma owned_AllowAllValues_st:
  assumes "AllowAllValues_st st pr a = (pr', st')"
  shows "owned st st' pr'"
proof -
  obtain np st1 where c: "deepcopy st pr = (np, st1)" by (cases "deepcopy st pr")
  define st2 where "st2 = st1\<lparr>policy_objs := (policy_objs st1)[np :=
      GetNonMatchingRulesFromPolicy_st st1 np (arg_condition a)]\<rparr>"
  obtain r np' st3 where cr: "CreateRuleOnPolicy_st st2 np (arg_condition a) = (r, np', st3)"
    by (cases "CreateRuleOnPolicy_st st2 np (arg_condition a)")
  have "AllowAllValues_st st pr a
      = (np', st3\<lparr>rule_objs := (rule_objs st3)[r := (rule_objs st3 ! r)\<lparr>obj_allowAll := Some True\<rparr>]\<rparr>)"
    unfolding AllowAllValues_st_def c Let_def prod.case st2_def[symmetric] cr by (rule refl)
  with assms have res: "pr' = np'"
    "st' = st3\<lparr>rule_objs := (rule_objs st3)[r := (rule_objs st3 ! r)\<lparr>obj_allowAll := Some True\<rparr>]\<rparr>"
    by auto
  have "owned st st1 np" using c by (rule owned_deepcopy)
  then have o2: "owned st st2 np"
    unfolding st2_def
    by (rule owned_policy_write) (auto simp: GetNonMatchingRulesFromPolicy_st_def)
  from owned_CreateRuleOnPolicy_st[OF o2 cr]
  have o3: "owned st st3 np'" and fr: "fresh_rule st st3 r" by simp_all
  from fr have "length (rule_objs st) \<le> r" by (simp add: fresh_rule_def)
  with o3 show ?thesis unfolding res by (intro owned_rule_write) simp_all
qed

lemma owned_AddValues_st:
  assumes "AddValues_st st pr a = (res, st')"
  shows "store_ext st st'" and "res = Inr pr' \<Longrightarrow> fresh_policy st st' pr'"
proof -
  obtain np0 st1 where c: "deepcopy st pr = (np0, st1)" by (cases "deepcopy st pr")
  obtain np st2 where rm: "RemoveValuesFromPolicy_st Denied st1 np0 a = (np, st2)"
    by (cases "RemoveValuesFromPolicy_st Denied st1 np0 a")
  define rs where "rs = GetMatchingRulesFromPolicy_st st2 np (arg_condition a)"
  define missing where
    "missing = GetMissingAllowedValuesFromRules (Some (map (read_rule st2) rs)) (arg_value a)"
  obtain r np' st3 where cr: "CreateRuleOnPolicy_st st2 np (arg_condition a) = (r, np', st3)"
    by (cases "CreateRuleOnPolicy_st st2 np (arg_condition a)")
  define st3' where "st3' = st2\<lparr>rule_objs := (rule_objs st2)[hd rs :=
      (rule_objs st2 ! hd rs)\<lparr>obj_allowAll := None, obj_denyAll := None\<rparr>]\<rparr>"
  have unf: "AddValues_st st pr a =
     (if missing = [] then (Inr np, st2)
      else if rs = [] then (Inr np', append_allowed_st missing st3 r)
      else (case scan_rules (map (read_rule st2) rs) of
              ReturnPolicy \<Rightarrow> (Inr np, st2)
            | Raise \<Rightarrow> (Inl OperationNotSupportedError, st2)
            | FallThrough \<Rightarrow> (Inr np, append_allowed_st missing st3' (hd rs))))"
    unfolding AddValues_st_def c Let_def prod.case rm rs_def[symmetric] missing_def[symmetric]
      cr st3'_def[symmetric]
    by (rule refl)
  have e1: "store_ext st st1" using c by (rule deepcopy_fresh(1))
  have "owned st1 st2 np" using rm by (rule owned_RemoveValuesFromPolicy_st)
  then have o2: "owned st st2 np" using e1 by (rule owned_earlier)
  from owned_CreateRuleOnPolicy_st[OF o2 cr]
  have o3: "owned st st3 np'" and fr: "fresh_rule st st3 r" by simp_all
  have o4: "owned st (append_allowed_st missing st3 r) np'"
    using o3 fr by (rule owned_append_allowed_st)
  have o5: "owned st (append_allowed_st missing st3' (hd rs)) np" if "rs \<noteq> []"
  proof -
    from that have "hd rs \<in> set rs" by simp
    with owned_matching_rules[OF o2, of "arg_condition a"]
    have f: "fresh_rule st st2 (hd rs)" by (simp add: rs_def list_all_iff)
    then have "length (rule_objs st) \<le> hd rs" by (simp add: fresh_rule_def)
    with o2 have o: "owned st st3' np" unfolding st3'_def by (intro owned_rule_write) simp_all
    from f have "fresh_rule st st3' (hd rs)" by (simp add: st3'_def fresh_rule_def)
    with o show ?thesis by (rule owned_append_allowed_st)
  qed
  have all: "owned st st' pr'" if "res = Inr pr'"
    using assms that o2 o4 o5 unfolding unf
    by (auto split: if_splits scan_result.splits)
  then show "res = Inr pr' \<Longrightarrow> fresh_policy st st' pr'" by (simp add: owned_def)
  show "store_ext st st'"
    using assms o2 o4 o5 unfolding unf
    by (auto simp: owned_def split: if_splits scan_result.splits)
qed

lemma UpdatePolicy_st_frame:
  assumes "UpdatePolicy_st st pr a = (res, st')"
  shows "store_ext st st'" and "res = Inr pr' \<Longrightarrow> fresh_policy st st' pr'"
proof -
  show "store_ext st st'"
    using assms owned_AllowAllValues_st[of st pr a] owned_RemoveValuesFromPolicy_st[of Allowed st pr a]
      owned_AddValues_st(1)[of st pr a]
    by (auto simp: UpdatePolicy_st_def owned_def split: if_splits prod.splits)
  show "res = Inr pr' \<Longrightarrow> fresh_policy st st' pr'"
    using assms owned_AllowAllValues_st[of st pr a] owned_RemoveValuesFromPolicy_st[of Allowed st pr a]
      owned_AddValues_st(2)[of st pr a]
    by (auto simp: UpdatePolicy_st_def owned_def split: if_splits prod.splits)
qed

section \<open>The store: the command computes the value-level functions\<close>

lemma fresh_rule_valid: "fresh_rule st0 st r \<Longrightarrow> valid_rule st r"
  by (simp add: fresh_rule_def valid_rule_def)

lemma read_rule_ext:
  assumes "store_ext st st'" "valid_rule st r"
  shows "read_rule st' r = read_rule st r" and "rule_objs st' ! r = rule_objs st ! r"
proof -
  from assms have r: "rule_objs st' ! r = rule_objs st ! r"
    by (simp add: store_ext_def valid_rule_def prefix_nth)
  have "values_objs st' ! v = values_objs st ! v"
    if "obj_values (rule_objs st ! r) = Some v" for v
    using that assms by (simp add: store_ext_def valid_rule_def prefix_nth)
  then show "read_rule st' r = read_rule st r"
    by (cases "obj_values (rule_objs st ! r)") (simp_all add: read_rule_def r)
  show "rule_objs st' ! r = rule_objs st ! r" by (rule r)
qed

lemma valid_rule_ext: "store_ext st st' \<Longrightarrow> valid_rule st r \<Longrightarrow> valid_rule st' r"
  using read_rule_ext(2)[of st st' r] ext_lengths[of st st']
  by (auto simp: valid_rule_def)

lemma deepcopy_rule_read:
  assumes "deepcopy_rule st r = (r', st')" "valid_rule st r"
  shows "read_rule st' r' = read_rule st r"
  using assms
  by (auto simp: deepcopy_rule_def Let_def read_rule_def valid_rule_def nth_append
      split: option.splits)

lemma deepcopy_rules_read:
  "deepcopy_rules st rs = (rs', st') \<Longrightarrow> list_all (valid_rule st) rs \<Longrightarrow>
     map (read_rule st') rs' = map (read_rule st) rs"
proof (induction rs arbitrary: st rs' st')
  case Nil
  then show ?case by simp
next
  case (Cons r rs)
  obtain r1 st1 where c1: "deepcopy_rule st r = (r1, st1)" by (cases "deepcopy_rule st r")
  obtain rs2 st2 where c2: "deepcopy_rules st1 rs = (rs2, st2)" by (cases "deepcopy_rules st1 rs")
  from Cons.prems(1) c1 c2 have res: "rs' = r1 # rs2" "st' = st2" by simp_all
  from Cons.prems(2) have vr: "valid_rule st r" and vrs: "list_all (valid_rule st) rs" by simp_all
  from deepcopy_rule_fresh[OF c1] have e1: "store_ext st st1" and f1: "fresh_rule st st1 r1" .
  from deepcopy_rules_fresh[OF c2] have e2: "store_ext st1 st2" by simp
  have vrs1: "list_all (valid_rule st1) rs"
    using vrs e1 by (auto simp: list_all_iff intro: valid_rule_ext)
  have "read_rule st2 r1 = read_rule st1 r1"
    using e2 fresh_rule_valid[OF f1] by (rule read_rule_ext(1))
  also have "\<dots> = read_rule st r" using c1 vr by (rule deepcopy_rule_read)
  finally have h: "read_rule st2 r1 = read_rule st r" .
  have "map (read_rule st2) rs2 = map (read_rule st1) rs" using c2 vrs1 by (rule Cons.IH)
  also have "\<dots> = map (read_rule st) rs"
    using vrs e1 by (auto simp: list_all_iff intro: read_rule_ext(1))
  finally show ?case using h res by simp
qed

lemma deepcopy_rule_above:
  assumes "deepcopy_rule st r = (r', st')"
  shows "r' = length (rule_objs st)"
    and "\<forall>v \<in> set_option (obj_values (rule_objs st' ! r')). v = length (values_objs st)"
  using assms
  by (auto simp: deepcopy_rule_def Let_def nth_append split: option.splits)

lemma deepcopy_rules_unshared:
  "deepcopy_rules st rs = (rs', st') \<Longrightarrow> unshared st' rs'"
proof (induction rs arbitrary: st rs' st')
  case Nil
  then show ?case by (simp add: unshared_def)
next
  case (Cons r rs)
  obtain r1 st1 where c1: "deepcopy_rule st r = (r1, st1)" by (cases "deepcopy_rule st r")
  obtain rs2 st2 where c2: "deepcopy_rules st1 rs = (rs2, st2)" by (cases "deepcopy_rules st1 rs")
  from Cons.prems(1) c1 c2 have res: "rs' = r1 # rs2" "st' = st2" by simp_all
  from deepcopy_rule_fresh[OF c1] have e1: "store_ext st st1" and f1: "fresh_rule st st1 r1" .
  from deepcopy_rules_fresh[OF c2] have e2: "store_ext st1 st2"
    and f2: "list_all (fresh_rule st1 st2) rs2" by simp_all
  from Cons.IH[OF c2] have u2: "unshared st2 rs2" .
  have r1: "r1 < length (rule_objs st1)" using f1 by (simp add: fresh_rule_def)
  have same1: "rule_objs st2 ! r1 = rule_objs st1 ! r1"
    using e2 fresh_rule_valid[OF f1] by (rule read_rule_ext(2))
  have v1: "\<forall>v \<in> set_option (obj_values (rule_objs st2 ! r1)). v < length (values_objs st1)"
    using f1 by (simp add: same1 fresh_rule_def)
  have above: "length (rule_objs st1) \<le> r2
      \<and> (\<forall>v \<in> set_option (obj_values (rule_objs st2 ! r2)). length (values_objs st1) \<le> v)"
    if "r2 \<in> set rs2" for r2
    using f2 that by (simp add: list_all_iff fresh_rule_def)
  have notin: "r1 \<notin> set rs2" using above r1 by fastforce
  have sep: "obj_values (rule_objs st2 ! r2) \<noteq> Some v"
    if "r2 \<in> set rs2" "v \<in> set_option (obj_values (rule_objs st2 ! r1))" for r2 v
  proof
    assume eq: "obj_values (rule_objs st2 ! r2) = Some v"
    with above[OF that(1)] have "length (values_objs st1) \<le> v" by simp
    moreover from v1 that(2) have "v < length (values_objs st1)" by blast
    ultimately show False by simp
  qed
  have "distinct (r1 # rs2)" using notin u2 by (simp add: unshared_def)
  moreover have "\<forall>ra \<in> set (r1 # rs2). \<forall>rb \<in> set (r1 # rs2).
      \<forall>v \<in> set_option (obj_values (rule_objs st2 ! ra)).
        obj_values (rule_objs st2 ! rb) = Some v \<longrightarrow> rb = ra"
  proof (intro ballI impI)
    fix ra rb v
    assume ra: "ra \<in> set (r1 # rs2)" and rb: "rb \<in> set (r1 # rs2)"
      and v: "v \<in> set_option (obj_values (rule_objs st2 ! ra))"
      and eq: "obj_values (rule_objs st2 ! rb) = Some v"
    show "rb = ra"
    proof (cases "ra = r1")
      case True
      with sep[of rb v] v eq rb show ?thesis by auto
    next
      case False
      with ra have ra2: "ra \<in> set rs2" by simp
      show ?thesis
      proof (cases "rb = r1")
        case True
        from v have "obj_values (rule_objs st2 ! ra) = Some v"
          by (cases "obj_values (rule_objs st2 ! ra)") simp_all
        moreover from eq True have "v \<in> set_option (obj_values (rule_objs st2 ! r1))" by simp
        ultimately show ?thesis using sep[OF ra2, of v] by simp
      next
        case False
        with rb have "rb \<in> set rs2" by simp
        with u2 ra2 v eq show ?thesis unfolding unshared_def by blast
      qed
    qed
  qed
  ultimately show ?case unfolding res unshared_def by blast
qed

lemma deepcopy_read:
  assumes "deepcopy st pr = (pr', st')" "wf_policy st pr"
  shows "read_policy st' pr' = read_policy st pr" and "wf_policy st' pr'"
    and "read_policy st' pr = read_policy st pr"
proof -
  obtain rs1 st1 where c: "deepcopy_rules st (policy_objs st ! pr) = (rs1, st1)"
    by (cases "deepcopy_rules st (policy_objs st ! pr)")
  have "deepcopy st pr = (length (policy_objs st1), st1\<lparr>policy_objs := policy_objs st1 @ [rs1]\<rparr>)"
    unfolding deepcopy_def c by simp
  with assms have pr': "pr' = length (policy_objs st1)"
    and st': "st' = st1\<lparr>policy_objs := policy_objs st1 @ [rs1]\<rparr>"
    by simp_all
  from assms(2) have v: "list_all (valid_rule st) (policy_objs st ! pr)"
    and pr: "pr < length (policy_objs st)"
    by (simp_all add: wf_policy_def)
  have rr: "read_rule st' = read_rule st1" by (rule ext) (simp add: read_rule_def st')
  have m: "map (read_rule st1) rs1 = map (read_rule st) (policy_objs st ! pr)"
    using c v by (rule deepcopy_rules_read)
  have at: "policy_objs st' ! pr' = rs1" by (simp add: pr' st')
  show "read_policy st' pr' = read_policy st pr"
    by (simp add: read_policy_def at rr m)
  from deepcopy_rules_fresh[OF c] have e: "store_ext st st1"
    and f: "list_all (fresh_rule st st1) rs1" by simp_all
  have "list_all (valid_rule st') rs1"
    using f by (auto simp: list_all_iff valid_rule_def fresh_rule_def st')
  moreover have "unshared st' rs1"
    using deepcopy_rules_unshared[OF c] by (simp add: unshared_def st')
  moreover have "pr' < length (policy_objs st')" by (simp add: pr' st')
  ultimately show "wf_policy st' pr'" by (simp add: wf_policy_def at)
  have "policy_objs st' ! pr = policy_objs st ! pr"
    using e pr ext_lengths(1)[OF e] by (simp add: st' nth_append store_ext_def prefix_nth)
  moreover have "map (read_rule st1) (policy_objs st ! pr) = map (read_rule st) (policy_objs st ! pr)"
    using v e by (auto simp: list_all_iff intro: read_rule_ext(1))
  ultimately show "read_policy st' pr = read_policy st pr"
    by (simp add: read_policy_def rr)
qed

lemma condition_read_rule [simp]: "condition (read_rule st r) = obj_condition (rule_objs st ! r)"
  by (simp add: read_rule_def Let_def)

lemma read_rule_eq:
  "read_rule st r =
     \<lparr>condition = obj_condition (rule_objs st ! r), allowAll = obj_allowAll (rule_objs st ! r),
      denyAll = obj_denyAll (rule_objs st ! r),
      rule_values = map_option (\<lambda>v. values_objs st ! v) (obj_values (rule_objs st ! r))\<rparr>"
  by (simp add: read_rule_def Let_def)

lemma read_policy_ext:
  assumes "store_ext st st'" "wf_policy st pr"
  shows "read_policy st' pr = read_policy st pr"
proof -
  from assms(2) have pr: "pr < length (policy_objs st)"
    and v: "list_all (valid_rule st) (policy_objs st ! pr)"
    by (simp_all add: wf_policy_def)
  from assms(1) pr have "policy_objs st' ! pr = policy_objs st ! pr"
    by (simp add: store_ext_def prefix_nth)
  moreover have "map (read_rule st') (policy_objs st ! pr) = map (read_rule st) (policy_objs st ! pr)"
    using v assms(1) by (auto simp: list_all_iff intro: read_rule_ext(1))
  ultimately show ?thesis by (simp add: read_policy_def)
qed

lemma values_after_strip:
  assumes "valid_rule st r" "v < length (values_objs st)"
  shows "values_objs (strip_rule_st t vs st r) ! v =
     (if obj_values (rule_objs st ! r) = Some v
      then remove_from_values t vs (values_objs st ! v) else values_objs st ! v)"
proof (cases "obj_values (rule_objs st ! r)")
  case None
  then show ?thesis by (simp add: strip_rule_st_def)
next
  case (Some v0)
  with assms(1) have "v0 < length (values_objs st)" by (simp add: valid_rule_def)
  with Some assms(2) show ?thesis
    by (cases "v = v0") (simp_all add: strip_rule_st_def)
qed

lemma valid_rule_same:
  "rule_objs st' = rule_objs st \<Longrightarrow> length (values_objs st') = length (values_objs st) \<Longrightarrow>
     valid_rule st' r = valid_rule st r"
  by (simp add: valid_rule_def)

lemma values_after_foldl_strip:
  "list_all (valid_rule st) ms \<Longrightarrow> v < length (values_objs st) \<Longrightarrow>
   values_objs (foldl (strip_rule_st t vs) st ms) ! v =
     (if \<exists>r \<in> set ms. obj_values (rule_objs st ! r) = Some v
      then remove_from_values t vs (values_objs st ! v) else values_objs st ! v)"
proof (induction ms arbitrary: st)
  case Nil
  then show ?case by simp
next
  case (Cons r ms)
  let ?st1 = "strip_rule_st t vs st r"
  from Cons.prems have vr: "valid_rule st r" and vms: "list_all (valid_rule st) ms" by simp_all
  have same: "valid_rule ?st1 r' = valid_rule st r'" for r'
    by (rule valid_rule_same) simp_all
  have v1: "list_all (valid_rule ?st1) ms" using vms by (simp add: list_all_iff same)
  have len: "v < length (values_objs ?st1)" using Cons.prems(2) by simp
  have "values_objs (foldl (strip_rule_st t vs) ?st1 ms) ! v =
     (if \<exists>r' \<in> set ms. obj_values (rule_objs ?st1 ! r') = Some v
      then remove_from_values t vs (values_objs ?st1 ! v) else values_objs ?st1 ! v)"
    using v1 len by (rule Cons.IH)
  also have "\<dots> = (if \<exists>r' \<in> set ms. obj_values (rule_objs st ! r') = Some v
      then remove_from_values t vs (values_objs ?st1 ! v) else values_objs ?st1 ! v)"
    by simp
  finally show ?case
    by (simp add: values_after_strip[OF vr Cons.prems(2)] remove_from_values_idem)
qed

lemma read_rule_after_foldl_strip:
  assumes "list_all (valid_rule st) rs" "unshared st rs" "set ms \<subseteq> set rs" "r \<in> set rs"
  shows "read_rule (foldl (strip_rule_st t vs) st ms) r =
     (if r \<in> set ms then remove_from_rule t vs (read_rule st r) else read_rule st r)"
proof (cases "obj_values (rule_objs st ! r)")
  case None
  then show ?thesis by (simp add: read_rule_eq remove_from_rule_def)
next
  case (Some v)
  from assms(1,4) have "valid_rule st r" by (simp add: list_all_iff)
  with Some have v: "v < length (values_objs st)" by (simp add: valid_rule_def)
  have vms: "list_all (valid_rule st) ms" using assms(1,3) by (auto simp: list_all_iff)
  have "(\<exists>r' \<in> set ms. obj_values (rule_objs st ! r') = Some v) \<longleftrightarrow> r \<in> set ms"
  proof
    assume "\<exists>r' \<in> set ms. obj_values (rule_objs st ! r') = Some v"
    then obtain r' where r': "r' \<in> set ms" "obj_values (rule_objs st ! r') = Some v" by blast
    with assms(3) have "r' \<in> set rs" by blast
    with assms(2,4) Some r'(2) have "r' = r" unfolding unshared_def by fastforce
    with r'(1) show "r \<in> set ms" by simp
  next
    assume "r \<in> set ms"
    with Some show "\<exists>r' \<in> set ms. obj_values (rule_objs st ! r') = Some v" by blast
  qed
  with values_after_foldl_strip[OF vms v, of t vs] Some show ?thesis
    by (simp add: read_rule_eq remove_from_rule_def)
qed

lemma unshared_same:
  "rule_objs st' = rule_objs st \<Longrightarrow> unshared st' rs = unshared st rs"
  by (simp add: unshared_def)

lemma unshared_filter: "unshared st rs \<Longrightarrow> unshared st (filter P rs)"
  by (auto simp: unshared_def)

lemma wf_policy_write:
  assumes "wf_policy st pr" "set rs \<subseteq> set (policy_objs st ! pr)" "unshared st rs"
  shows "wf_policy (st\<lparr>policy_objs := (policy_objs st)[pr := rs]\<rparr>) pr"
proof -
  let ?st' = "st\<lparr>policy_objs := (policy_objs st)[pr := rs]\<rparr>"
  have same: "valid_rule ?st' r = valid_rule st r" for r
    by (rule valid_rule_same) simp_all
  from assms show ?thesis
    by (auto simp: wf_policy_def list_all_iff same unshared_same[of ?st' st])
qed

lemma RemoveValuesFromPolicy_st_read:
  assumes "RemoveValuesFromPolicy_st t st pr a = (pr', st')" "wf_policy st pr"
  shows "read_policy st' pr' = RemoveValuesFromPolicy t (read_policy st pr) a"
    and "wf_policy st' pr'"
proof -
  obtain np st1 where c: "deepcopy st pr = (np, st1)" by (cases "deepcopy st pr")
  define refs where "refs = policy_objs st1 ! np"
  define ms where "ms = GetMatchingRulesFromPolicy_st st1 np (arg_condition a)"
  define st2 where "st2 = foldl (strip_rule_st t (arg_value a)) st1 ms"
  define keep where "keep = filter (\<lambda>r. \<not> (obj_condition (rule_objs st2 ! r) = arg_condition a
                                   \<and> dead_rule (read_rule st2 r))) (policy_objs st2 ! np)"
  have "RemoveValuesFromPolicy_st t st pr a
      = (np, st2\<lparr>policy_objs := (policy_objs st2)[np := keep]\<rparr>)"
    unfolding RemoveValuesFromPolicy_st_def c keep_def st2_def ms_def by (simp add: Let_def)
  with assms have res: "pr' = np" "st' = st2\<lparr>policy_objs := (policy_objs st2)[np := keep]\<rparr>"
    by auto
  from deepcopy_read[OF c assms(2)]
  have r1: "read_policy st1 np = read_policy st pr" and w1: "wf_policy st1 np" by simp_all
  from w1 have np: "np < length (policy_objs st1)" and v1: "list_all (valid_rule st1) refs"
    and u1: "unshared st1 refs"
    by (simp_all add: wf_policy_def refs_def)
  have ms_sub: "set ms \<subseteq> set refs"
    unfolding ms_def refs_def by (rule set_GetMatchingRulesFromPolicy_st)
  have in_ms: "r \<in> set ms \<longleftrightarrow> obj_condition (rule_objs st1 ! r) = arg_condition a"
    if "r \<in> set refs" for r
    using that by (simp add: ms_def refs_def GetMatchingRulesFromPolicy_st_def)
  have refs2: "policy_objs st2 ! np = refs" by (simp add: st2_def refs_def)
  have rd2: "read_rule st2 r =
      (if condition (read_rule st1 r) = arg_condition a
       then remove_from_rule t (arg_value a) (read_rule st1 r) else read_rule st1 r)"
    if "r \<in> set refs" for r
    using read_rule_after_foldl_strip[OF v1 u1 ms_sub that, of t "arg_value a"] in_ms[OF that]
    by (simp add: st2_def)
  have m2: "map (read_rule st2) refs =
      map (\<lambda>x. if condition x = arg_condition a then remove_from_rule t (arg_value a) x else x)
        (map (read_rule st1) refs)"
    using rd2 by (simp add: comp_def)
  have keep_eq: "keep = filter ((\<lambda>x. \<not> (condition x = arg_condition a \<and> dead_rule x))
      \<circ> read_rule st2) refs"
    by (simp add: keep_def refs2 comp_def)
  have rr: "read_rule st' = read_rule st2" by (rule ext) (simp add: read_rule_def res)
  have at: "policy_objs st' ! np = keep" using np by (simp add: res st2_def)
  have "rules (read_policy st' np) = map (read_rule st2) keep"
    by (simp add: read_policy_def at rr)
  also have "\<dots> = filter (\<lambda>x. \<not> (condition x = arg_condition a \<and> dead_rule x))
      (map (read_rule st2) refs)"
    unfolding keep_eq by (simp only: filter_map)
  also have "\<dots> = rules (RemoveValuesFromPolicy t (read_policy st1 np) a)"
    unfolding m2 by (simp add: rules_RemoveValuesFromPolicy read_policy_def refs_def)
  finally have "rules (read_policy st' np) = rules (RemoveValuesFromPolicy t (read_policy st pr) a)"
    by (simp add: r1)
  then show "read_policy st' pr' = RemoveValuesFromPolicy t (read_policy st pr) a"
    unfolding res(1) by (rule Policy.equality) simp
  have same2: "rule_objs st2 = rule_objs st1" "length (values_objs st2) = length (values_objs st1)"
    "policy_objs st2 = policy_objs st1"
    by (simp_all add: st2_def)
  have w2: "wf_policy st2 np"
    using w1 by (simp add: wf_policy_def list_all_iff same2(3)
        valid_rule_same[OF same2(1,2)] unshared_same[OF same2(1)])
  have "unshared st2 refs" using u1 by (simp add: unshared_same[OF same2(1)])
  then have "unshared st2 keep"
    unfolding keep_def refs2 by (rule unshared_filter)
  moreover have "set keep \<subseteq> set (policy_objs st2 ! np)" by (auto simp: keep_def)
  ultimately show "wf_policy st' pr'"
    unfolding res using w2 by (intro wf_policy_write)
qed

lemma map_if_update:
  "distinct xs \<Longrightarrow> i < length xs \<Longrightarrow>
     map (\<lambda>x. if x = xs ! i then y else f x) xs = (map f xs)[i := y]"
  by (auto simp: list_eq_iff_nth_eq nth_list_update nth_eq_iff_index_eq)

lemma wf_policy_refs:
  assumes "wf_policy st pr"
  shows "pr < length (policy_objs st)"
    and "r \<in> set (policy_objs st ! pr) \<Longrightarrow> valid_rule st r"
    and "unshared st (policy_objs st ! pr)"
    and "distinct (policy_objs st ! pr)"
  using assms by (simp_all add: wf_policy_def list_all_iff unshared_def)

lemma CreateRuleOnPolicy_st_read:
  assumes "CreateRuleOnPolicy_st st pr c = (r, pr', st')" "wf_policy st pr"
  shows "pr' = pr" and "policy_objs st' ! pr = policy_objs st ! pr @ [r]"
    and "rules (read_policy st' pr) = rules (read_policy st pr) @ [empty_rule c]"
    and "wf_policy st' pr"
proof -
  let ?ro = "\<lparr>obj_condition = c, obj_allowAll = None, obj_denyAll = None, obj_values = None\<rparr>"
  define refs where "refs = policy_objs st ! pr"
  from assms(1) have res: "r = length (rule_objs st)" "pr' = pr"
    "st' = st\<lparr>rule_objs := rule_objs st @ [?ro],
              policy_objs := (policy_objs st)[pr := refs @ [r]]\<rparr>"
    by (auto simp: CreateRuleOnPolicy_st_def Let_def refs_def)
  note w = wf_policy_refs[OF assms(2), folded refs_def]
  show "pr' = pr" by (rule res(2))
  show at: "policy_objs st' ! pr = refs @ [r]" using w(1) by (simp add: res(3))
  have old: "rule_objs st' ! r' = rule_objs st ! r'" if "r' \<in> set refs" for r'
    using w(2)[OF that] by (simp add: res(3) valid_rule_def nth_append)
  have rd_old: "read_rule st' r' = read_rule st r'" if "r' \<in> set refs" for r'
    unfolding read_rule_eq old[OF that] by (simp add: res(3))
  have new: "rule_objs st' ! r = ?ro" by (simp add: res(1,3))
  have rd_new: "read_rule st' r = empty_rule c"
    by (simp add: read_rule_eq new empty_rule_def)
  have "map (read_rule st') refs = map (read_rule st) refs" using rd_old by simp
  then show "rules (read_policy st' pr) = rules (read_policy st pr) @ [empty_rule c]"
    by (simp add: read_policy_def at rd_new refs_def[symmetric])
  have notin: "r \<notin> set refs"
  proof
    assume "r \<in> set refs"
    from w(2)[OF this] show False by (simp add: valid_rule_def res(1))
  qed
  have valid: "list_all (valid_rule st') (refs @ [r])"
  proof -
    have "valid_rule st' r'" if "r' \<in> set refs" for r'
      using w(2)[OF that] old[OF that] by (simp add: valid_rule_def) (simp add: res(3))
    moreover have "valid_rule st' r" by (simp add: valid_rule_def new) (simp add: res(1,3))
    ultimately show ?thesis by (simp add: list_all_iff)
  qed
  have "unshared st' (refs @ [r])"
    unfolding unshared_def
  proof (intro conjI ballI impI)
    show "distinct (refs @ [r])" using w(4) notin by simp
  next
    fix ra rb v
    assume ra: "ra \<in> set (refs @ [r])" and rb: "rb \<in> set (refs @ [r])"
      and v: "v \<in> set_option (obj_values (rule_objs st' ! ra))"
      and eq: "obj_values (rule_objs st' ! rb) = Some v"
    from v new have "ra \<noteq> r" by auto
    with ra have ra': "ra \<in> set refs" by simp
    from eq new have "rb \<noteq> r" by auto
    with rb have rb': "rb \<in> set refs" by simp
    from w(3) ra' rb' v eq show "rb = ra"
      unfolding unshared_def old[OF ra'] old[OF rb'] by blast
  qed
  moreover have "pr < length (policy_objs st')" using w(1) by (simp add: res(3))
  ultimately show "wf_policy st' pr" using valid by (simp add: wf_policy_def at)
qed

lemma rule_write_read:
  fixes ro :: RuleObj
  assumes "wf_policy st pr" "r \<in> set (policy_objs st ! pr)"
    and "obj_values ro = obj_values (rule_objs st ! r)"
  defines "st' \<equiv> st\<lparr>rule_objs := (rule_objs st)[r := ro]\<rparr>"
  shows "wf_policy st' pr"
    and "r' \<in> set (policy_objs st ! pr) \<Longrightarrow>
           read_rule st' r' =
             (if r' = r
              then \<lparr>condition = obj_condition ro, allowAll = obj_allowAll ro,
                    denyAll = obj_denyAll ro, rule_values = rule_values (read_rule st r)\<rparr>
              else read_rule st r')"
proof -
  note w = wf_policy_refs[OF assms(1)]
  from w(2)[OF assms(2)] have r: "r < length (rule_objs st)" by (simp add: valid_rule_def)
  have ov: "obj_values (rule_objs st' ! x) = obj_values (rule_objs st ! x)" for x
    using assms(3) r by (cases "x = r") (simp_all add: st'_def)
  have "valid_rule st' = valid_rule st"
    by (rule ext) (simp add: valid_rule_def ov, simp add: st'_def)
  moreover have "unshared st' = unshared st"
    by (rule ext) (simp add: unshared_def ov)
  moreover have "policy_objs st' = policy_objs st" by (simp add: st'_def)
  ultimately show "wf_policy st' pr" using assms(1) by (simp add: wf_policy_def)
  show "read_rule st' r' =
             (if r' = r
              then \<lparr>condition = obj_condition ro, allowAll = obj_allowAll ro,
                    denyAll = obj_denyAll ro, rule_values = rule_values (read_rule st r)\<rparr>
              else read_rule st r')"
    using r assms(3) by (cases "r' = r") (simp_all add: read_rule_eq st'_def)
qed

lemma append_allowed_st_read:
  fixes m :: "string list"
  assumes "wf_policy st pr" "r \<in> set (policy_objs st ! pr)"
  defines "st' \<equiv> append_allowed_st m st r"
  shows "policy_objs st' = policy_objs st"
    and "r' \<in> set (policy_objs st ! pr) \<Longrightarrow>
           read_rule st' r' = (if r' = r then append_allowed m (read_rule st r) else read_rule st r')"
proof -
  note w = wf_policy_refs[OF assms(1)]
  from w(2)[OF assms(2)] have r: "r < length (rule_objs st)"
    and rv: "\<forall>v \<in> set_option (obj_values (rule_objs st ! r)). v < length (values_objs st)"
    by (simp_all add: valid_rule_def)
  show "policy_objs st' = policy_objs st"
    by (simp add: st'_def append_allowed_st_def split: option.splits)
  assume r': "r' \<in> set (policy_objs st ! pr)"
  from w(2)[OF r'] have r'l: "r' < length (rule_objs st)"
    and r'v: "\<forall>v \<in> set_option (obj_values (rule_objs st ! r')). v < length (values_objs st)"
    by (simp_all add: valid_rule_def)
  show "read_rule st' r' = (if r' = r then append_allowed m (read_rule st r) else read_rule st r')"
  proof (cases "obj_values (rule_objs st ! r)")
    case None
    show ?thesis
    proof (cases "r' = r")
      case True
      with None r show ?thesis
        by (simp add: st'_def append_allowed_st_def read_rule_eq append_allowed_def Let_def)
    next
      case False
      with None r r'l r'v show ?thesis
        by (cases "obj_values (rule_objs st ! r')")
           (simp_all add: st'_def append_allowed_st_def read_rule_eq nth_append)
    qed
  next
    case (Some v)
    with rv have v: "v < length (values_objs st)" by simp
    show ?thesis
    proof (cases "r' = r")
      case True
      with Some v show ?thesis
        by (simp add: st'_def append_allowed_st_def read_rule_eq append_allowed_def Let_def)
    next
      case False
      have "obj_values (rule_objs st ! r') \<noteq> Some v"
      proof
        assume "obj_values (rule_objs st ! r') = Some v"
        with w(3) assms(2) r' Some have "r' = r" unfolding unshared_def by fastforce
        with False show False by simp
      qed
      with Some False show ?thesis
        by (cases "obj_values (rule_objs st ! r')")
           (simp_all add: st'_def append_allowed_st_def read_rule_eq)
    qed
  qed
qed

lemma read_policy_update_one:
  assumes "policy_objs st' ! pr = policy_objs st ! pr" "distinct (policy_objs st ! pr)"
    and "i < length (policy_objs st ! pr)"
    and "\<And>r'. r' \<in> set (policy_objs st ! pr) \<Longrightarrow>
           read_rule st' r' = (if r' = policy_objs st ! pr ! i then y else read_rule st r')"
  shows "rules (read_policy st' pr) = (rules (read_policy st pr))[i := y]"
proof -
  have "map (read_rule st') (policy_objs st ! pr)
      = map (\<lambda>r'. if r' = policy_objs st ! pr ! i then y else read_rule st r') (policy_objs st ! pr)"
    using assms(4) by simp
  also have "\<dots> = (map (read_rule st) (policy_objs st ! pr))[i := y]"
    using assms(2,3) by (rule map_if_update)
  finally show ?thesis by (simp add: read_policy_def assms(1))
qed

lemma snoc_update: "length xs = n \<Longrightarrow> (xs @ [e])[n := y] = xs @ [y]"
  by auto

lemma rules_read_policy: "rules (read_policy st pr) = map (read_rule st) (policy_objs st ! pr)"
  by (simp add: read_policy_def)

lemma AllowAllValues_st_read:
  assumes "AllowAllValues_st st pr a = (pr', st')" "wf_policy st pr"
  shows "read_policy st' pr' = AllowAllValues (read_policy st pr) a"
proof -
  obtain np st1 where c: "deepcopy st pr = (np, st1)" by (cases "deepcopy st pr")
  define keep where "keep = GetNonMatchingRulesFromPolicy_st st1 np (arg_condition a)"
  define st2 where "st2 = st1\<lparr>policy_objs := (policy_objs st1)[np := keep]\<rparr>"
  obtain r np' st3 where cr: "CreateRuleOnPolicy_st st2 np (arg_condition a) = (r, np', st3)"
    by (cases "CreateRuleOnPolicy_st st2 np (arg_condition a)")
  define st4 where "st4 = st3\<lparr>rule_objs := (rule_objs st3)[r :=
      (rule_objs st3 ! r)\<lparr>obj_allowAll := Some True\<rparr>]\<rparr>"
  have "AllowAllValues_st st pr a = (np', st4)"
    unfolding AllowAllValues_st_def c Let_def prod.case keep_def[symmetric] st2_def[symmetric] cr
      st4_def[symmetric]
    by (rule refl)
  with assms have res: "pr' = np'" "st' = st4" by auto
  from deepcopy_read[OF c assms(2)]
  have r1: "read_policy st1 np = read_policy st pr" and w1: "wf_policy st1 np" by simp_all
  note w1' = wf_policy_refs[OF w1]
  have keep_eq: "keep = filter ((\<lambda>x. condition x \<noteq> arg_condition a) \<circ> read_rule st1)
      (policy_objs st1 ! np)"
    by (simp add: keep_def GetNonMatchingRulesFromPolicy_st_def comp_def)
  have w2: "wf_policy st2 np"
    unfolding st2_def using w1
    by (rule wf_policy_write) (auto simp: keep_eq intro: unshared_filter w1'(3))
  have rr2: "read_rule st2 = read_rule st1" by (rule ext) (simp add: read_rule_def st2_def)
  have at2: "policy_objs st2 ! np = keep" using w1'(1) by (simp add: st2_def)
  have "rules (read_policy st2 np) = map (read_rule st1) keep"
    by (simp add: rules_read_policy at2 rr2)
  also have "\<dots> = filter (\<lambda>x. condition x \<noteq> arg_condition a) (rules (read_policy st1 np))"
    unfolding keep_eq rules_read_policy by (simp only: filter_map)
  finally have rl2: "rules (read_policy st2 np)
      = filter (\<lambda>x. condition x \<noteq> arg_condition a) (rules (read_policy st pr))"
    by (simp add: r1)
  from CreateRuleOnPolicy_st_read[OF cr w2]
  have np': "np' = np" and at3: "policy_objs st3 ! np = keep @ [r]"
    and rl3: "rules (read_policy st3 np) = rules (read_policy st2 np) @ [empty_rule (arg_condition a)]"
    and w3: "wf_policy st3 np"
    by (simp_all add: at2)
  from rl3 have "map (read_rule st3) keep @ [read_rule st3 r]
      = map (read_rule st2) keep @ [empty_rule (arg_condition a)]"
    by (simp add: rules_read_policy at3 at2)
  then have rd3: "read_rule st3 r = empty_rule (arg_condition a)" by simp
  have r_in: "r \<in> set (policy_objs st3 ! np)" by (simp add: at3)
  have i: "length keep < length (policy_objs st3 ! np)" "policy_objs st3 ! np ! length keep = r"
    by (simp_all add: at3)
  have "rules (read_policy st4 np)
      = (rules (read_policy st3 np))[length keep := allow_all_rule (arg_condition a)]"
  proof (rule read_policy_update_one)
    show "policy_objs st4 ! np = policy_objs st3 ! np" by (simp add: st4_def)
    show "distinct (policy_objs st3 ! np)" by (rule wf_policy_refs(4)[OF w3])
    show "length keep < length (policy_objs st3 ! np)" by (rule i(1))
    fix r' assume "r' \<in> set (policy_objs st3 ! np)"
    from rule_write_read(2)[OF w3 r_in _ this, of "(rule_objs st3 ! r)\<lparr>obj_allowAll := Some True\<rparr>"]
    show "read_rule st4 r' = (if r' = policy_objs st3 ! np ! length keep
        then allow_all_rule (arg_condition a) else read_rule st3 r')"
      using rd3 unfolding st4_def[symmetric] i(2)
      by (simp add: read_rule_eq empty_rule_def allow_all_rule_def)
  qed
  also have "\<dots> = rules (read_policy st2 np) @ [allow_all_rule (arg_condition a)]"
    unfolding rl3 using snoc_update[of "rules (read_policy st2 np)" "length keep"]
    by (simp add: rules_read_policy at2)
  finally have "rules (read_policy st4 np) = rules (AllowAllValues (read_policy st pr) a)"
    by (simp add: rl2 AllowAllValues_eq)
  then show ?thesis unfolding res np' by (rule Policy.equality) simp
qed

lemma hd_matching_refs:
  assumes "filter P refs \<noteq> []"
  shows "hd (filter P refs) = refs ! hd (filter (\<lambda>i. P (refs ! i)) [0..<length refs])"
proof -
  have eq: "map ((!) refs) (filter (\<lambda>i. P (refs ! i)) [0..<length refs]) = filter P refs"
    by (rule nth_filter_upt)
  with assms have "filter (\<lambda>i. P (refs ! i)) [0..<length refs] \<noteq> []" by auto
  then have "hd (map ((!) refs) (filter (\<lambda>i. P (refs ! i)) [0..<length refs]))
      = refs ! hd (filter (\<lambda>i. P (refs ! i)) [0..<length refs])"
    by (rule hd_map)
  then show ?thesis by (simp only: eq)
qed

lemma first_matching_read:
  "first_matching (read_policy st pr) c =
     hd (filter (\<lambda>i. obj_condition (rule_objs st ! (policy_objs st ! pr ! i)) = c)
           [0..<length (policy_objs st ! pr)])"
proof -
  have "filter (\<lambda>i. condition (rules (read_policy st pr) ! i) = c)
          [0..<length (rules (read_policy st pr))]
      = filter (\<lambda>i. obj_condition (rule_objs st ! (policy_objs st ! pr ! i)) = c)
          [0..<length (policy_objs st ! pr)]"
    by (rule filter_cong) (simp_all add: rules_read_policy)
  then show ?thesis
    by (simp add: first_matching_def GetMatchingRulesFromPolicy_def rule_at_def)
qed

lemma AddValues_st_read:
  assumes "AddValues_st st pr a = (res, st')" "wf_policy st pr"
  shows "map_sum (\<lambda>e. e) (read_policy st') res = AddValues (read_policy st pr) a"
proof -
  obtain np0 st1 where c: "deepcopy st pr = (np0, st1)" by (cases "deepcopy st pr")
  obtain np st2 where rm: "RemoveValuesFromPolicy_st Denied st1 np0 a = (np, st2)"
    by (cases "RemoveValuesFromPolicy_st Denied st1 np0 a")
  define refs where "refs = policy_objs st2 ! np"
  define rs where "rs = GetMatchingRulesFromPolicy_st st2 np (arg_condition a)"
  define missing where
    "missing = GetMissingAllowedValuesFromRules (Some (map (read_rule st2) rs)) (arg_value a)"
  obtain r np' st3 where cr: "CreateRuleOnPolicy_st st2 np (arg_condition a) = (r, np', st3)"
    by (cases "CreateRuleOnPolicy_st st2 np (arg_condition a)")
  define st3' where "st3' = st2\<lparr>rule_objs := (rule_objs st2)[hd rs :=
      (rule_objs st2 ! hd rs)\<lparr>obj_allowAll := None, obj_denyAll := None\<rparr>]\<rparr>"
  have unf: "AddValues_st st pr a =
     (if missing = [] then (Inr np, st2)
      else if rs = [] then (Inr np', append_allowed_st missing st3 r)
      else (case scan_rules (map (read_rule st2) rs) of
              ReturnPolicy \<Rightarrow> (Inr np, st2)
            | Raise \<Rightarrow> (Inl OperationNotSupportedError, st2)
            | FallThrough \<Rightarrow> (Inr np, append_allowed_st missing st3' (hd rs))))"
    unfolding AddValues_st_def c Let_def prod.case rm rs_def[symmetric] missing_def[symmetric]
      cr st3'_def[symmetric]
    by (rule refl)
  define NP where "NP = RemoveDeniedValuesFromPolicy (read_policy st pr) a"
  define ms where "ms = filter (\<lambda>x. condition x = arg_condition a) (rules NP)"
  define i where "i = first_matching NP (arg_condition a)"
  from deepcopy_read[OF c assms(2)]
  have r1: "read_policy st1 np0 = read_policy st pr" and w1: "wf_policy st1 np0" by simp_all
  from RemoveValuesFromPolicy_st_read[OF rm w1]
  have r2: "read_policy st2 np = NP" and w2: "wf_policy st2 np"
    by (simp_all add: r1 NP_def RemoveDeniedValuesFromPolicy_def)
  note w2' = wf_policy_refs[OF w2, folded refs_def]
  have rules_NP: "rules NP = map (read_rule st2) refs"
    unfolding r2[symmetric] refs_def by (rule rules_read_policy)
  have rs_eq: "rs = filter ((\<lambda>x. condition x = arg_condition a) \<circ> read_rule st2) refs"
    by (simp add: rs_def GetMatchingRulesFromPolicy_st_def refs_def comp_def)
  have ms_eq: "map (read_rule st2) rs = ms"
    unfolding rs_eq ms_def rules_NP by (simp only: filter_map)
  have rs_Nil: "rs = [] \<longleftrightarrow> ms = []" using ms_eq by auto
  have missing_eq: "missing = fromkeys (filter (\<lambda>v. v \<notin> existing_allowed ms) (arg_value a))"
    unfolding missing_def ms_eq by (rule GetMissing_eq)
  have pure: "AddValues (read_policy st pr) a =
     (if missing = [] then Inr NP
      else if ms = [] then
        Inr (NP\<lparr>rules := rules NP @ [append_allowed missing (empty_rule (arg_condition a))]\<rparr>)
      else (case scan_rules ms of
              ReturnPolicy \<Rightarrow> Inr NP
            | Raise \<Rightarrow> Inl OperationNotSupportedError
            | FallThrough \<Rightarrow>
                Inr (NP\<lparr>rules := (rules NP)[i :=
                       append_allowed missing ((rules NP ! i)\<lparr>allowAll := None, denyAll := None\<rparr>)]\<rparr>)))"
    unfolding missing_eq ms_def NP_def i_def using AddValues_unfold[of "read_policy st pr" a]
    by (simp only: Let_def)
  have new: "read_policy (append_allowed_st missing st3 r) np'
      = NP\<lparr>rules := rules NP @ [append_allowed missing (empty_rule (arg_condition a))]\<rparr>"
  proof -
    from CreateRuleOnPolicy_st_read[OF cr w2]
    have np': "np' = np" and at3: "policy_objs st3 ! np = refs @ [r]"
      and rl3: "rules (read_policy st3 np) = rules NP @ [empty_rule (arg_condition a)]"
      and w3: "wf_policy st3 np"
      by (simp_all add: refs_def r2)
    from rl3 have "map (read_rule st3) refs @ [read_rule st3 r]
        = map (read_rule st2) refs @ [empty_rule (arg_condition a)]"
      by (simp add: rules_read_policy at3 rules_NP)
    then have rd3: "read_rule st3 r = empty_rule (arg_condition a)" by simp
    have r_in: "r \<in> set (policy_objs st3 ! np)" by (simp add: at3)
    have idx: "length refs < length (policy_objs st3 ! np)" "policy_objs st3 ! np ! length refs = r"
      by (simp_all add: at3)
    have "rules (read_policy (append_allowed_st missing st3 r) np)
        = (rules (read_policy st3 np))[length refs :=
             append_allowed missing (empty_rule (arg_condition a))]"
    proof (rule read_policy_update_one)
      show "policy_objs (append_allowed_st missing st3 r) ! np = policy_objs st3 ! np"
        by (simp add: append_allowed_st_read(1)[OF w3 r_in])
      show "distinct (policy_objs st3 ! np)" by (rule wf_policy_refs(4)[OF w3])
      show "length refs < length (policy_objs st3 ! np)" by (rule idx(1))
      fix r' assume "r' \<in> set (policy_objs st3 ! np)"
      from append_allowed_st_read(2)[OF w3 r_in this, of missing]
      show "read_rule (append_allowed_st missing st3 r) r' =
          (if r' = policy_objs st3 ! np ! length refs
           then append_allowed missing (empty_rule (arg_condition a)) else read_rule st3 r')"
        by (simp add: idx(2) rd3)
    qed
    also have "\<dots> = rules NP @ [append_allowed missing (empty_rule (arg_condition a))]"
      unfolding rl3 using snoc_update[of "rules NP" "length refs"] by (simp add: rules_NP)
    finally show ?thesis unfolding np' by (intro Policy.equality) simp_all
  qed
  have upd: "read_policy (append_allowed_st missing st3' (hd rs)) np
      = NP\<lparr>rules := (rules NP)[i :=
           append_allowed missing ((rules NP ! i)\<lparr>allowAll := None, denyAll := None\<rparr>)]\<rparr>"
    if "rs \<noteq> []"
  proof -
    have i_eq: "i = hd (filter (\<lambda>j. obj_condition (rule_objs st2 ! (refs ! j)) = arg_condition a)
        [0..<length refs])"
      unfolding i_def r2[symmetric] refs_def by (rule first_matching_read)
    from that have ne: "filter (\<lambda>r. obj_condition (rule_objs st2 ! r) = arg_condition a) refs \<noteq> []"
      by (simp add: rs_def GetMatchingRulesFromPolicy_st_def refs_def)
    from hd_matching_refs[OF ne] have hd_rs: "hd rs = refs ! i"
      by (simp add: i_eq rs_def GetMatchingRulesFromPolicy_st_def refs_def)
    from that rs_Nil have "ms \<noteq> []" by simp
    then have i_lt: "i < length refs"
      using first_matching_props(1)[of "arg_condition a" NP] by (simp add: ms_def i_def rules_NP)
    then have r_in: "hd rs \<in> set (policy_objs st2 ! np)" by (simp add: hd_rs refs_def)
    have at_i: "rules NP ! i = read_rule st2 (hd rs)" using i_lt by (simp add: rules_NP hd_rs)
    let ?ro = "(rule_objs st2 ! hd rs)\<lparr>obj_allowAll := None, obj_denyAll := None\<rparr>"
    have w3: "wf_policy st3' np"
      unfolding st3'_def by (rule rule_write_read(1)[OF w2 r_in]) simp
    have pol3: "policy_objs st3' = policy_objs st2" by (simp add: st3'_def)
    have rd3: "read_rule st3' r' =
        (if r' = hd rs then (rules NP ! i)\<lparr>allowAll := None, denyAll := None\<rparr>
         else read_rule st2 r')"
      if "r' \<in> set (policy_objs st2 ! np)" for r'
      using rule_write_read(2)[OF w2 r_in _ that, of ?ro]
      unfolding st3'_def[symmetric] by (simp add: at_i read_rule_eq)
    have rl3: "rules (read_policy st3' np)
        = (rules NP)[i := (rules NP ! i)\<lparr>allowAll := None, denyAll := None\<rparr>]"
      unfolding r2[symmetric]
    proof (rule read_policy_update_one)
      show "policy_objs st3' ! np = policy_objs st2 ! np" by (simp add: pol3)
      show "distinct (policy_objs st2 ! np)" by (rule wf_policy_refs(4)[OF w2])
      show "i < length (policy_objs st2 ! np)" using i_lt by (simp add: refs_def)
      fix r' assume "r' \<in> set (policy_objs st2 ! np)"
      from rd3[OF this]
      show "read_rule st3' r' = (if r' = policy_objs st2 ! np ! i
          then (rules (read_policy st2 np) ! i)\<lparr>allowAll := None, denyAll := None\<rparr>
          else read_rule st2 r')"
        by (simp add: hd_rs refs_def r2)
    qed
    have r_in3: "hd rs \<in> set (policy_objs st3' ! np)" using r_in by (simp add: pol3)
    have "rules (read_policy (append_allowed_st missing st3' (hd rs)) np)
        = (rules (read_policy st3' np))[i := append_allowed missing (read_rule st3' (hd rs))]"
    proof (rule read_policy_update_one)
      show "policy_objs (append_allowed_st missing st3' (hd rs)) ! np = policy_objs st3' ! np"
        by (simp add: append_allowed_st_read(1)[OF w3 r_in3])
      show "distinct (policy_objs st3' ! np)" by (rule wf_policy_refs(4)[OF w3])
      show "i < length (policy_objs st3' ! np)" using i_lt by (simp add: pol3 refs_def)
      fix r' assume "r' \<in> set (policy_objs st3' ! np)"
      from append_allowed_st_read(2)[OF w3 r_in3 this, of missing]
      show "read_rule (append_allowed_st missing st3' (hd rs)) r' =
          (if r' = policy_objs st3' ! np ! i
           then append_allowed missing (read_rule st3' (hd rs)) else read_rule st3' r')"
        by (simp add: pol3 hd_rs refs_def)
    qed
    also have "\<dots> = (rules NP)[i :=
        append_allowed missing ((rules NP ! i)\<lparr>allowAll := None, denyAll := None\<rparr>)]"
      using rd3[OF r_in] by (simp add: rl3)
    finally show ?thesis by (intro Policy.equality) simp_all
  qed
  show ?thesis
  proof (cases "missing = []")
    case True
    with assms(1) unf pure r2 show ?thesis by auto
  next
    case mne: False
    show ?thesis
    proof (cases "rs = []")
      case True
      with mne assms(1) unf have "res = Inr np'" "st' = append_allowed_st missing st3 r" by auto
      with new pure mne True rs_Nil show ?thesis by simp
    next
      case rne: False
      with rs_Nil have msne: "ms \<noteq> []" by simp
      show ?thesis
      proof (cases "scan_rules ms")
        case ReturnPolicy
        with mne rne assms(1) unf ms_eq have "res = Inr np" "st' = st2" by auto
        with pure mne msne ReturnPolicy r2 show ?thesis by simp
      next
        case Raise
        with mne rne assms(1) unf ms_eq have "res = Inl OperationNotSupportedError" by auto
        with pure mne msne Raise show ?thesis by simp
      next
        case FallThrough
        with mne rne assms(1) unf ms_eq
        have "res = Inr np" "st' = append_allowed_st missing st3' (hd rs)" by auto
        with upd[OF rne] pure mne msne FallThrough show ?thesis by simp
      qed
    qed
  qed
qed

lemma append_allowed_st_wf:
  assumes "wf_policy st pr" "r \<in> set (policy_objs st ! pr)"
  shows "wf_policy (append_allowed_st m st r) pr"
proof (cases "obj_values (rule_objs st ! r)")
  case (Some v)
  let ?st' = "st\<lparr>values_objs := (values_objs st)[v := (values_objs st ! v)
            \<lparr>allowedValues := allowedValues (values_objs st ! v) @ m\<rparr>]\<rparr>"
  have "valid_rule ?st' = valid_rule st" by (rule ext) (simp add: valid_rule_def)
  moreover have "unshared ?st' = unshared st" by (rule ext) (simp add: unshared_def)
  ultimately have "wf_policy ?st' pr" using assms(1) by (simp add: wf_policy_def)
  with Some show ?thesis by (simp add: append_allowed_st_def)
next
  case None
  note w = wf_policy_refs[OF assms(1)]
  define refs where "refs = policy_objs st ! pr"
  let ?v = "length (values_objs st)"
  let ?st1 = "st\<lparr>values_objs := values_objs st @ [\<lparr>allowedValues = [], deniedValues = []\<rparr>],
                 rule_objs := (rule_objs st)[r := (rule_objs st ! r)\<lparr>obj_values := Some ?v\<rparr>]\<rparr>"
  let ?st' = "?st1\<lparr>values_objs := (values_objs ?st1)[?v := (values_objs ?st1 ! ?v)
            \<lparr>allowedValues := allowedValues (values_objs ?st1 ! ?v) @ m\<rparr>]\<rparr>"
  from None have st': "append_allowed_st m st r = ?st'" by (simp add: append_allowed_st_def)
  from w(2)[OF assms(2)] have r: "r < length (rule_objs st)" by (simp add: valid_rule_def)
  have ov: "obj_values (rule_objs ?st' ! x) = (if x = r then Some ?v else obj_values (rule_objs st ! x))"
    if "x < length (rule_objs st)" for x
    using that by (cases "x = r") simp_all
  have xs: "x < length (rule_objs st) \<and> (\<forall>v \<in> set_option (obj_values (rule_objs st ! x)). v < ?v)"
    if "x \<in> set refs" for x
    using w(2)[of x] that by (simp add: valid_rule_def refs_def)
  have valid: "list_all (valid_rule ?st') refs"
    unfolding list_all_iff
  proof
    fix x assume x: "x \<in> set refs"
    from xs[OF x] ov[of x] show "valid_rule ?st' x"
      by (cases "x = r") (auto simp: valid_rule_def less_Suc_eq)
  qed
  have "unshared ?st' refs"
    unfolding unshared_def
  proof (intro conjI ballI impI)
    show "distinct refs" using w(4) by (simp add: refs_def)
  next
    fix ra rb v
    assume ra: "ra \<in> set refs" and rb: "rb \<in> set refs"
      and v: "v \<in> set_option (obj_values (rule_objs ?st' ! ra))"
      and eq: "obj_values (rule_objs ?st' ! rb) = Some v"
    from xs[OF ra] have ova: "obj_values (rule_objs ?st' ! ra)
        = (if ra = r then Some ?v else obj_values (rule_objs st ! ra))" by (intro ov) simp
    from xs[OF rb] have ovb: "obj_values (rule_objs ?st' ! rb)
        = (if rb = r then Some ?v else obj_values (rule_objs st ! rb))" by (intro ov) simp
    show "rb = ra"
    proof (cases "ra = r")
      case True
      with v ova have "v = ?v" by simp
      with eq ovb xs[OF rb] have "rb = r" by (cases "rb = r") auto
      with True show ?thesis by simp
    next
      case False
      with v ova have va: "v \<in> set_option (obj_values (rule_objs st ! ra))" by simp
      with xs[OF ra] have "v < ?v" by blast
      with eq ovb have nb: "rb \<noteq> r" by (cases "rb = r") auto
      with eq ovb have "obj_values (rule_objs st ! rb) = Some v" by simp
      with w(3) ra rb va show ?thesis unfolding unshared_def refs_def by blast
    qed
  qed
  moreover have "policy_objs ?st' = policy_objs st" by simp
  ultimately have "wf_policy ?st' pr"
    using w(1) valid by (simp add: wf_policy_def refs_def)
  then show ?thesis by (simp only: st')
qed

lemma AllowAllValues_st_wf:
  assumes "AllowAllValues_st st pr a = (pr', st')" "wf_policy st pr"
  shows "wf_policy st' pr'"
proof -
  obtain np st1 where c: "deepcopy st pr = (np, st1)" by (cases "deepcopy st pr")
  define keep where "keep = GetNonMatchingRulesFromPolicy_st st1 np (arg_condition a)"
  define st2 where "st2 = st1\<lparr>policy_objs := (policy_objs st1)[np := keep]\<rparr>"
  obtain r np' st3 where cr: "CreateRuleOnPolicy_st st2 np (arg_condition a) = (r, np', st3)"
    by (cases "CreateRuleOnPolicy_st st2 np (arg_condition a)")
  define st4 where "st4 = st3\<lparr>rule_objs := (rule_objs st3)[r :=
      (rule_objs st3 ! r)\<lparr>obj_allowAll := Some True\<rparr>]\<rparr>"
  have "AllowAllValues_st st pr a = (np', st4)"
    unfolding AllowAllValues_st_def c Let_def prod.case keep_def[symmetric] st2_def[symmetric] cr
      st4_def[symmetric]
    by (rule refl)
  with assms have res: "pr' = np'" "st' = st4" by auto
  from deepcopy_read[OF c assms(2)] have w1: "wf_policy st1 np" by simp
  have w2: "wf_policy st2 np"
    unfolding st2_def using w1
    by (rule wf_policy_write)
       (auto simp: keep_def GetNonMatchingRulesFromPolicy_st_def
          intro: unshared_filter wf_policy_refs(3)[OF w1])
  from CreateRuleOnPolicy_st_read[OF cr w2]
  have np': "np' = np" and at3: "policy_objs st3 ! np = policy_objs st2 ! np @ [r]"
    and w3: "wf_policy st3 np" by simp_all
  have "r \<in> set (policy_objs st3 ! np)" by (simp add: at3)
  from rule_write_read(1)[OF w3 this, of "(rule_objs st3 ! r)\<lparr>obj_allowAll := Some True\<rparr>"]
  show ?thesis unfolding res np' st4_def by simp
qed

lemma AddValues_st_wf:
  assumes "AddValues_st st pr a = (Inr pr', st')" "wf_policy st pr"
  shows "wf_policy st' pr'"
proof -
  obtain np0 st1 where c: "deepcopy st pr = (np0, st1)" by (cases "deepcopy st pr")
  obtain np st2 where rm: "RemoveValuesFromPolicy_st Denied st1 np0 a = (np, st2)"
    by (cases "RemoveValuesFromPolicy_st Denied st1 np0 a")
  define rs where "rs = GetMatchingRulesFromPolicy_st st2 np (arg_condition a)"
  define missing where
    "missing = GetMissingAllowedValuesFromRules (Some (map (read_rule st2) rs)) (arg_value a)"
  obtain r np' st3 where cr: "CreateRuleOnPolicy_st st2 np (arg_condition a) = (r, np', st3)"
    by (cases "CreateRuleOnPolicy_st st2 np (arg_condition a)")
  define st3' where "st3' = st2\<lparr>rule_objs := (rule_objs st2)[hd rs :=
      (rule_objs st2 ! hd rs)\<lparr>obj_allowAll := None, obj_denyAll := None\<rparr>]\<rparr>"
  have unf: "AddValues_st st pr a =
     (if missing = [] then (Inr np, st2)
      else if rs = [] then (Inr np', append_allowed_st missing st3 r)
      else (case scan_rules (map (read_rule st2) rs) of
              ReturnPolicy \<Rightarrow> (Inr np, st2)
            | Raise \<Rightarrow> (Inl OperationNotSupportedError, st2)
            | FallThrough \<Rightarrow> (Inr np, append_allowed_st missing st3' (hd rs))))"
    unfolding AddValues_st_def c Let_def prod.case rm rs_def[symmetric] missing_def[symmetric]
      cr st3'_def[symmetric]
    by (rule refl)
  from deepcopy_read[OF c assms(2)] have w1: "wf_policy st1 np0" by simp
  from RemoveValuesFromPolicy_st_read(2)[OF rm w1] have w2: "wf_policy st2 np" .
  have w4: "wf_policy (append_allowed_st missing st3 r) np'"
  proof -
    from CreateRuleOnPolicy_st_read[OF cr w2]
    have np': "np' = np" and at3: "policy_objs st3 ! np = policy_objs st2 ! np @ [r]"
      and w3: "wf_policy st3 np" by simp_all
    have "r \<in> set (policy_objs st3 ! np)" by (simp add: at3)
    with w3 show ?thesis unfolding np' by (rule append_allowed_st_wf)
  qed
  have w5: "wf_policy (append_allowed_st missing st3' (hd rs)) np" if "rs \<noteq> []"
  proof -
    from that have "hd rs \<in> set rs" by simp
    with set_GetMatchingRulesFromPolicy_st[of st2 np "arg_condition a"]
    have r_in: "hd rs \<in> set (policy_objs st2 ! np)" by (auto simp: rs_def)
    have w3: "wf_policy st3' np"
      unfolding st3'_def by (rule rule_write_read(1)[OF w2 r_in]) simp
    have "hd rs \<in> set (policy_objs st3' ! np)" using r_in by (simp add: st3'_def)
    with w3 show ?thesis by (rule append_allowed_st_wf)
  qed
  from assms(1) w2 w4 w5 show ?thesis
    unfolding unf by (auto split: if_splits scan_result.splits)
qed

lemma UpdatePolicy_st_wf:
  assumes "UpdatePolicy_st st pr a = (Inr pr', st')" "wf_policy st pr"
  shows "wf_policy st' pr'"
  using assms AllowAllValues_st_wf[of st pr a pr' st']
    RemoveValuesFromPolicy_st_read(2)[of Allowed st pr a pr' st'] AddValues_st_wf[of st pr a pr' st']
  by (auto simp: UpdatePolicy_st_def split: if_splits prod.splits)

lemma Reconcile_st_wf:
  assumes "Reconcile_st st pr a = (Inr pr', st')" "wf_policy st pr"
  shows "wf_policy st' pr'"
  using assms UpdatePolicy_st_wf[of st pr a pr' st']
  by (auto simp: Reconcile_st_def split: if_splits)

lemma UpdatePolicy_st_read:
  assumes "UpdatePolicy_st st pr a = (res, st')" "wf_policy st pr"
  shows "map_sum (\<lambda>e. e) (read_policy st') res = UpdatePolicy (read_policy st pr) a"
proof (cases "arg_value a = []")
  case True
  obtain np st1 where c: "AllowAllValues_st st pr a = (np, st1)"
    by (cases "AllowAllValues_st st pr a")
  with True assms(1) have "res = Inr np" "st' = st1" by (auto simp: UpdatePolicy_st_def)
  with AllowAllValues_st_read[OF c assms(2)] True show ?thesis
    by (simp add: UpdatePolicy_def)
next
  case False
  show ?thesis
  proof (cases "arg_remove a")
    case True
    obtain np st1 where c: "RemoveValuesFromPolicy_st Allowed st pr a = (np, st1)"
      by (cases "RemoveValuesFromPolicy_st Allowed st pr a")
    with True False assms(1) have "res = Inr np" "st' = st1" by (auto simp: UpdatePolicy_st_def)
    with RemoveValuesFromPolicy_st_read(1)[OF c assms(2)] True False show ?thesis
      by (simp add: UpdatePolicy_def RemoveAllowedValuesFromPolicy_def)
  next
    case nr: False
    with False assms(1) have "AddValues_st st pr a = (res, st')" by (simp add: UpdatePolicy_st_def)
    from AddValues_st_read[OF this assms(2)] False nr show ?thesis
      by (simp add: UpdatePolicy_def)
  qed
qed

lemma Reconcile_st_read:
  assumes "Reconcile_st st pr a = (res, st')" "wf_policy st pr"
  shows "map_sum (\<lambda>e. e) (read_policy st') res = Reconcile (read_policy st pr) a"
proof (cases "arg_value a = [] \<and> arg_remove a")
  case True
  with assms(1) show ?thesis by (auto simp: Reconcile_st_def Reconcile_def Run_def)
next
  case False
  with assms(1) have "UpdatePolicy_st st pr a = (res, st')" by (auto simp: Reconcile_st_def)
  from UpdatePolicy_st_read[OF this assms(2)] False show ?thesis
    by (auto simp: Reconcile_def Run_def)
qed

lemma Reconcile_st_frame:
  assumes "Reconcile_st st pr a = (res, st')"
  shows "store_ext st st'" and "res = Inr pr' \<Longrightarrow> fresh_policy st st' pr'"
proof -
  show "store_ext st st'"
    using assms UpdatePolicy_st_frame(1)[of st pr a res st']
    by (auto simp: Reconcile_st_def split: if_splits)
  show "res = Inr pr' \<Longrightarrow> fresh_policy st st' pr'"
    using assms UpdatePolicy_st_frame(2)[of st pr a res st' pr']
    by (auto simp: Reconcile_st_def split: if_splits)
qed

lemma exclusive_flags_RemoveValuesFromPolicy:
  assumes "exclusive_flags p"
  shows "exclusive_flags (RemoveValuesFromPolicy t p a)"
proof -
  have "\<not> (allowAll r = Some True \<and> denyAll r = Some True)"
    if "r \<in> set (rules (RemoveValuesFromPolicy t p a))" for r
  proof -
    from that obtain r0 where r0: "r0 \<in> set (rules p)"
      and r: "r = (if condition r0 = arg_condition a
                   then remove_from_rule t (arg_value a) r0 else r0)"
      by (auto simp: rules_RemoveValuesFromPolicy)
    from r have "allowAll r = allowAll r0" "denyAll r = denyAll r0"
      by (simp_all add: remove_from_rule_def)
    with r0 assms show ?thesis by (simp add: exclusive_flags_def list_all_iff)
  qed
  then show ?thesis by (simp add: exclusive_flags_def list_all_iff)
qed

lemma Reconcile_raises:
  fixes p :: Policy and a :: Args
  defines "np \<equiv> RemoveDeniedValuesFromPolicy p a"
  defines "ms \<equiv> filter (\<lambda>r. condition r = arg_condition a) (rules np)"
  assumes "arg_value a \<noteq> []" and "\<not> arg_remove a"
    and "\<not> set (arg_value a) \<subseteq> existing_allowed ms"
    and "k < length ms"
    and "\<forall>j < k. allowAll (ms ! j) \<noteq> Some True \<and> denyAll (ms ! j) \<noteq> Some True"
    and "denyAll (ms ! k) = Some True"
    and "allowAll (ms ! k) \<noteq> Some True"
  shows "Reconcile p a = Inl OperationNotSupportedError"
proof -
  have "\<forall>j \<le> k. allowAll (ms ! j) \<noteq> Some True"
    using assms(7,9) by (auto simp: le_less)
  with assms(6,8) have "scan_rules ms = Raise"
    unfolding scan_Raise_iff by blast
  moreover have "ms \<noteq> []" using assms(6) by auto
  moreover have "GetMissingAllowedValuesFromRules (Some ms) (arg_value a) \<noteq> []"
    using assms(5) by (simp add: missing_eq_Nil_iff)
  ultimately have "AddValues p a = Inl OperationNotSupportedError"
    unfolding ms_def np_def by (intro AddValues_cases(4))
  with assms(3,4) show ?thesis by (simp add: Reconcile_add)
qed

lemma store_kept:
  assumes "store_ext st st'"
  shows "take (length (policy_objs st)) (policy_objs st') = policy_objs st"
    and "take (length (rule_objs st)) (rule_objs st') = rule_objs st"
    and "take (length (values_objs st)) (values_objs st') = values_objs st"
  using assms by (auto simp: store_ext_def prefix_def)

lemma existing_allowed_member:
  assumes "r \<in> set rs"
  shows "existing_allowed [r] \<subseteq> existing_allowed rs"
proof
  fix v assume "v \<in> existing_allowed [r]"
  with assms show "v \<in> existing_allowed rs" by (subst existing_allowed_mem) blast
qed

lemma missing_allowed_Nil:
  assumes "set (GetMissingAllowedValuesFromRules (Some rs) vs) \<subseteq> existing_allowed rs"
  shows "GetMissingAllowedValuesFromRules (Some rs) vs = []"
proof (rule ccontr)
  assume "GetMissingAllowedValuesFromRules (Some rs) vs \<noteq> []"
  then obtain v where v: "v \<in> set (GetMissingAllowedValuesFromRules (Some rs) vs)"
    by (cases "GetMissingAllowedValuesFromRules (Some rs) vs") auto
  then have "v \<notin> existing_allowed rs" by (simp add: GetMissing_eq set_fromkeys)
  moreover from v assms have "v \<in> existing_allowed rs" by (rule subsetD[rotated])
  ultimately show False by (rule notE)
qed

section \<open>The claims\<close>

text \<open>
  The claims about what the command computes are stated on values; by
  \<open>Reconcile_st_read\<close> the command on the store computes the same, so each of them holds
  of the policy that the store-level command returns. The claims about the caller's
  policy are stated on the store.
\<close>

text \<open>
  Claim C2. \<^verbatim>\<open>Reconcile\<close> fails with the invalid-request error (\<^verbatim>\<open>InvalidInputError\<close> in
  the source) exactly when removal is requested and no value is given. The check comes
  first in \<^verbatim>\<open>Run\<close>: with such a request \<^verbatim>\<open>Run\<close> fails whatever the superclass would
  do, so that nothing has been fetched, copied or changed by then, and on the store the
  failing call leaves the store as it was.
\<close>

theorem Reconcile_invalid_iff:
  "(Reconcile p a = Inl InvalidInputError \<longleftrightarrow> arg_remove a \<and> arg_value a = [])
   \<and> (arg_remove a \<and> arg_value a = [] \<longrightarrow>
         Run super_Run disable_create a = Inl InvalidInputError
         \<and> Reconcile_st st pr a = (Inl InvalidInputError, st))"
  using UpdatePolicy_not_invalid[of p a]
  by (auto simp: Reconcile_def Run_def Reconcile_st_def)

theorem Reconcile_invalid_iff_witness:
  "arg_remove remove_nothing \<and> arg_value remove_nothing = []
   \<and> Reconcile deny_all_policy remove_nothing = Inl InvalidInputError
   \<and> Run (\<lambda>d a. Inr (d, a)) False remove_nothing = Inl InvalidInputError
   \<and> Reconcile_st deny_all_store 0 remove_nothing = (Inl InvalidInputError, deny_all_store)
   \<and> Reconcile deny_all_policy add_A \<noteq> Inl InvalidInputError"
proof -
  have h: "arg_remove remove_nothing \<and> arg_value remove_nothing = []" by code_simp
  have h': "\<not> (arg_remove add_A \<and> arg_value add_A = [])" by code_simp
  from Reconcile_invalid_iff[of deny_all_policy remove_nothing "\<lambda>d a. Inr (d, a)" False
      deny_all_store 0] h
  have "Reconcile deny_all_policy remove_nothing = Inl InvalidInputError"
    "Run (\<lambda>d a. Inr (d, a)) False remove_nothing = Inl InvalidInputError"
    "Reconcile_st deny_all_store 0 remove_nothing = (Inl InvalidInputError, deny_all_store)"
    by blast+
  moreover from Reconcile_invalid_iff[of deny_all_policy add_A] h'
  have "Reconcile deny_all_policy add_A \<noteq> Inl InvalidInputError" by blast
  ultimately show ?thesis using h by blast
qed

text \<open>
  Claim C3. With no value in the request, \<^verbatim>\<open>UpdatePolicy\<close> runs the allow-all workflow:
  the result holds the rules whose condition differs from the requested one, in their
  order, followed by one new rule with the requested condition and a true \<^verbatim>\<open>allowAll\<close>;
  that rule is the only rule of the result with the requested condition, and it has no
  value lists.
\<close>

theorem UpdatePolicy_allow_all:
  assumes "arg_value a = []"
  shows "\<exists>p'. UpdatePolicy p a = Inr p'
     \<and> rules p' = filter (\<lambda>r. condition r \<noteq> arg_condition a) (rules p)
                    @ [\<lparr>condition = arg_condition a, allowAll = Some True, denyAll = None,
                         rule_values = None\<rparr>]
     \<and> filter (\<lambda>r. condition r = arg_condition a) (rules p')
          = [\<lparr>condition = arg_condition a, allowAll = Some True, denyAll = None,
               rule_values = None\<rparr>]"
  using assms by (simp add: UpdatePolicy_def AllowAllValues_eq allow_all_rule_def)

theorem UpdatePolicy_allow_all_witness:
  "arg_value allow_all_c = []
   \<and> UpdatePolicy two_rule_policy allow_all_c =
       Inr \<lparr>rules = [\<lparr>condition = None, allowAll = None, denyAll = None,
                       rule_values = Some \<lparr>allowedValues = [''X''], deniedValues = []\<rparr>\<rparr>,
                     \<lparr>condition = Some ''c'', allowAll = Some True, denyAll = None,
                       rule_values = None\<rparr>]\<rparr>"
proof -
  have h: "arg_value allow_all_c = []" by code_simp
  from UpdatePolicy_allow_all[OF h, of two_rule_policy]
  obtain p' where p': "UpdatePolicy two_rule_policy allow_all_c = Inr p'"
    "rules p' = filter (\<lambda>r. condition r \<noteq> arg_condition allow_all_c) (rules two_rule_policy)
                    @ [\<lparr>condition = arg_condition allow_all_c, allowAll = Some True, denyAll = None,
                         rule_values = None\<rparr>]" by blast
  have "filter (\<lambda>r. condition r \<noteq> arg_condition allow_all_c) (rules two_rule_policy)
      = [\<lparr>condition = None, allowAll = None, denyAll = None,
                       rule_values = Some \<lparr>allowedValues = [''X''], deniedValues = []\<rparr>\<rparr>]"
    by code_simp
  moreover have "arg_condition allow_all_c = Some ''c''" by code_simp
  ultimately have "p' = \<lparr>rules = [\<lparr>condition = None, allowAll = None, denyAll = None,
                       rule_values = Some \<lparr>allowedValues = [''X''], deniedValues = []\<rparr>\<rparr>,
                     \<lparr>condition = Some ''c'', allowAll = Some True, denyAll = None,
                       rule_values = None\<rparr>]\<rparr>"
    using p'(2) by (cases p') simp
  with p'(1) h show ?thesis by simp
qed

text \<open>
  Claim C8. The allow-all workflow is idempotent: run twice with the same condition it
  gives the same policy as run once, and that policy has exactly one rule for the
  condition, the allow-all rule.
\<close>

theorem AllowAllValues_idempotent:
  "AllowAllValues (AllowAllValues p a) a = AllowAllValues p a
   \<and> filter (\<lambda>r. condition r = arg_condition a) (rules (AllowAllValues (AllowAllValues p a) a))
        = [\<lparr>condition = arg_condition a, allowAll = Some True, denyAll = None, rule_values = None\<rparr>]
   \<and> length (filter (\<lambda>r. condition r = arg_condition a \<and> allowAll r = Some True)
        (rules (AllowAllValues (AllowAllValues p a) a))) = 1"
  by (simp add: AllowAllValues_eq allow_all_rule_def)

text \<open>
  Claim C5. The add-values workflow is idempotent: a second run with the same values
  and condition on the result of the first gives the result of the first (a first run that
  raises leaves nothing to run on, and the whole is that error).
\<close>

theorem AddValues_idempotent:
  "(case AddValues p a of Inl e \<Rightarrow> Inl e | Inr p' \<Rightarrow> AddValues p' a) = AddValues p a"
proof -
  define np where "np = RemoveDeniedValuesFromPolicy p a"
  define c where "c = arg_condition a"
  define ms where "ms = filter (\<lambda>r. condition r = c) (rules np)"
  define missing where "missing = fromkeys (filter (\<lambda>v. v \<notin> existing_allowed ms) (arg_value a))"
  define i where "i = first_matching np c"
  have unf: "AddValues p a =
     (if missing = [] then Inr np
      else if ms = [] then
        Inr (np\<lparr>rules := rules np @ [append_allowed missing (empty_rule c)]\<rparr>)
      else (case scan_rules ms of
              ReturnPolicy \<Rightarrow> Inr np
            | Raise \<Rightarrow> Inl OperationNotSupportedError
            | FallThrough \<Rightarrow>
                Inr (np\<lparr>rules := (rules np)[i :=
                       append_allowed missing ((rules np ! i)\<lparr>allowAll := None, denyAll := None\<rparr>)]\<rparr>)))"
    unfolding np_def c_def ms_def missing_def i_def using AddValues_unfold[of p a]
    by (simp only: Let_def)
  have again: "AddValues np a = AddValues p a"
    unfolding np_def by (rule AddValues_after_removal)
  have np_settled: "\<forall>r \<in> set (rules np). settled Denied a r"
    unfolding np_def RemoveDeniedValuesFromPolicy_def
    by (simp add: settled_RemoveValuesFromPolicy)
  have cover: "set (arg_value a) \<subseteq> existing_allowed ms \<union> set missing"
    unfolding missing_def by (rule vals_covered)
  show ?thesis
  proof (cases "missing = []")
    case True
    with unf again show ?thesis by simp
  next
    case mne: False
    show ?thesis
    proof (cases "ms = []")
      case True
      let ?p' = "np\<lparr>rules := rules np @ [append_allowed missing (empty_rule c)]\<rparr>"
      from True mne unf have res: "AddValues p a = Inr ?p'" by simp
      have "\<forall>r \<in> set (rules ?p'). settled Denied a r"
        using np_settled mne by (auto simp: settled_new_rule)
      moreover have "set (arg_value a)
          \<subseteq> existing_allowed (filter (\<lambda>r. condition r = arg_condition a) (rules ?p'))"
      proof -
        have "filter (\<lambda>r. condition r = arg_condition a) (rules ?p')
            = [append_allowed missing (empty_rule c)]"
          using True by (simp add: ms_def c_def empty_rule_def)
        moreover have "existing_allowed ms = {}" using True by (simp add: existing_allowed_def)
        moreover have "existing_allowed [append_allowed missing (empty_rule c)] = set missing"
          by (simp add: existing_allowed_append_allowed) (simp add: existing_allowed_def empty_rule_def)
        ultimately show ?thesis using cover by (simp only: Un_empty_left)
      qed
      ultimately have "AddValues ?p' a = Inr ?p'" by (rule AddValues_nothing_to_do)
      with res show ?thesis by simp
    next
      case msne: False
      show ?thesis
      proof (cases "scan_rules ms")
        case ReturnPolicy
        with mne msne unf again show ?thesis by simp
      next
        case Raise
        with mne msne unf show ?thesis by simp
      next
        case FallThrough
        let ?r' = "append_allowed missing ((rules np ! i)\<lparr>allowAll := None, denyAll := None\<rparr>)"
        let ?p' = "np\<lparr>rules := (rules np)[i := ?r']\<rparr>"
        from FallThrough mne msne unf have res: "AddValues p a = Inr ?p'" by simp
        from msne have i: "i < length (rules np)" "condition (rules np ! i) = c"
          unfolding i_def ms_def by (rule first_matching_props)+
        have "settled Denied a ?r'"
          using np_settled i mne by (intro settled_append_allowed) (simp_all add: c_def)
        then have "\<forall>r \<in> set (rules ?p'). settled Denied a r"
          using np_settled set_update_subset_insert[of "rules np" i ?r'] by auto
        moreover have "set (arg_value a)
            \<subseteq> existing_allowed (filter (\<lambda>r. condition r = arg_condition a) (rules ?p'))"
          using cover existing_allowed_update[OF i, of missing]
          by (simp add: ms_def c_def) blast
        ultimately have "AddValues ?p' a = Inr ?p'" by (rule AddValues_nothing_to_do)
        with res show ?thesis by simp
      qed
    qed
  qed
qed

text \<open>
  Claim C4. Let \<open>np\<close> be the policy after the removal of the requested values from
  the denied lists, and \<open>ms\<close> its rules that match the condition. The missing values
  are the requested values that no rule of \<open>ms\<close> allows, in the order of the request,
  each at its first occurrence (\<^const>\<open>remdups\<close> keeps last occurrences, hence the two
  reversals); they are distinct. When there are missing values they are appended: to a new
  rule when no rule matches, and otherwise, when the scan over \<open>ms\<close> finds no true
  \<^verbatim>\<open>allowAll\<close> or \<^verbatim>\<open>denyAll\<close>, after the allowed values that the first matching rule
  already has, the other rules staying as they are.
\<close>

theorem AddValues_appends_missing:
  fixes p :: Policy and a :: Args
  defines "np \<equiv> RemoveDeniedValuesFromPolicy p a"
  defines "ms \<equiv> filter (\<lambda>r. condition r = arg_condition a) (rules np)"
  defines "missing \<equiv> rev (remdups (rev (filter (\<lambda>v. v \<notin> existing_allowed ms) (arg_value a))))"
  shows "GetMissingAllowedValuesFromRules (Some ms) (arg_value a) = missing
     \<and> set missing = set (arg_value a) - existing_allowed ms \<and> distinct missing
     \<and> (missing \<noteq> [] \<and> ms = [] \<longrightarrow>
          AddValues p a = Inr (np\<lparr>rules := rules np @
            [\<lparr>condition = arg_condition a, allowAll = None, denyAll = None,
              rule_values = Some \<lparr>allowedValues = missing, deniedValues = []\<rparr>\<rparr>]\<rparr>))
     \<and> (missing \<noteq> [] \<and> ms \<noteq> []
          \<and> (\<forall>r \<in> set ms. allowAll r \<noteq> Some True \<and> denyAll r \<noteq> Some True) \<longrightarrow>
          (\<exists>i < length (rules np). condition (rules np ! i) = arg_condition a
             \<and> (\<forall>j < i. condition (rules np ! j) \<noteq> arg_condition a)
             \<and> (\<exists>p'. AddValues p a = Inr p' \<and> length (rules p') = length (rules np)
                  \<and> (\<forall>j < length (rules np). j \<noteq> i \<longrightarrow> rules p' ! j = rules np ! j)
                  \<and> (\<exists>sv. rule_values (rules p' ! i) = Some sv
                        \<and> allowedValues sv =
                            (case rule_values (rules np ! i) of None \<Rightarrow> []
                             | Some sv \<Rightarrow> allowedValues sv) @ missing))))"
proof -
  have eq: "GetMissingAllowedValuesFromRules (Some ms) (arg_value a) = missing"
    unfolding missing_def by (simp add: GetMissing_eq fromkeys_first_occurrences)
  have st: "set missing = set (arg_value a) - existing_allowed ms"
    unfolding missing_def by auto
  have di: "distinct missing" unfolding missing_def by simp
  have new: "AddValues p a = Inr (np\<lparr>rules := rules np @
            [\<lparr>condition = arg_condition a, allowAll = None, denyAll = None,
              rule_values = Some \<lparr>allowedValues = missing, deniedValues = []\<rparr>\<rparr>]\<rparr>)"
    if "missing \<noteq> []" "ms = []"
    using AddValues_cases(2)[where p = p and a = a] that eq
    unfolding ms_def[symmetric] np_def[symmetric]
    by (simp add: append_allowed_def empty_rule_def)
  have upd: "\<exists>i < length (rules np). condition (rules np ! i) = arg_condition a
             \<and> (\<forall>j < i. condition (rules np ! j) \<noteq> arg_condition a)
             \<and> (\<exists>p'. AddValues p a = Inr p' \<and> length (rules p') = length (rules np)
                  \<and> (\<forall>j < length (rules np). j \<noteq> i \<longrightarrow> rules p' ! j = rules np ! j)
                  \<and> (\<exists>sv. rule_values (rules p' ! i) = Some sv
                        \<and> allowedValues sv =
                            (case rule_values (rules np ! i) of None \<Rightarrow> []
                             | Some sv \<Rightarrow> allowedValues sv) @ missing))"
    if h: "missing \<noteq> []" "ms \<noteq> []"
      "\<forall>r \<in> set ms. allowAll r \<noteq> Some True \<and> denyAll r \<noteq> Some True"
  proof -
    from AddValues_target[where p = p and a = a] h eq
    obtain i where i: "i < length (rules np)" "condition (rules np ! i) = arg_condition a"
      "\<forall>j < i. condition (rules np ! j) \<noteq> arg_condition a"
      "AddValues p a = Inr (np\<lparr>rules := (rules np)[i :=
                (rules np ! i)\<lparr>allowAll := None, denyAll := None,
                  rule_values := Some
                    \<lparr>allowedValues = (case rule_values (rules np ! i) of None \<Rightarrow> []
                                       | Some sv \<Rightarrow> allowedValues sv) @ missing,
                     deniedValues = (case rule_values (rules np ! i) of None \<Rightarrow> []
                                      | Some sv \<Rightarrow> deniedValues sv)\<rparr>\<rparr>]\<rparr>)"
      unfolding ms_def[symmetric] np_def[symmetric] by auto
    show ?thesis
      apply (rule exI[of _ i])
      using i by simp
  qed
  from eq st di new upd show ?thesis by blast
qed

theorem AddValues_appends_missing_witness:
  "rev (remdups (rev (filter (\<lambda>v. v \<notin> existing_allowed (rules allows_B_policy))
       (arg_value add_ABA)))) = [''A'']
   \<and> list_all (\<lambda>r. allowAll r \<noteq> Some True \<and> denyAll r \<noteq> Some True) (rules allows_B_policy)
   \<and> (\<exists>p'. AddValues allows_B_policy add_ABA = Inr p'
         \<and> (\<exists>sv. rule_values (rules p' ! 0) = Some sv \<and> allowedValues sv = [''B'', ''A'']))"
proof -
  let ?np = "RemoveDeniedValuesFromPolicy allows_B_policy add_ABA"
  let ?ms = "filter (\<lambda>r. condition r = arg_condition add_ABA) (rules ?np)"
  let ?missing = "rev (remdups (rev (filter (\<lambda>v. v \<notin> existing_allowed ?ms) (arg_value add_ABA))))"
  have np: "?np = allows_B_policy" by code_simp
  have ms: "?ms = rules allows_B_policy" by code_simp
  have mi: "?missing = [''A'']" by code_simp
  have fl: "\<forall>r \<in> set ?ms. allowAll r \<noteq> Some True \<and> denyAll r \<noteq> Some True" by code_simp
  have ne: "?missing \<noteq> [] \<and> ?ms \<noteq> []" by code_simp
  from AddValues_appends_missing[where p = allows_B_policy and a = add_ABA] ne fl
  obtain i p' sv where r: "i < length (rules ?np)" "AddValues allows_B_policy add_ABA = Inr p'"
    "rule_values (rules p' ! i) = Some sv"
    "allowedValues sv = (case rule_values (rules ?np ! i) of None \<Rightarrow> []
                             | Some sv \<Rightarrow> allowedValues sv) @ ?missing"
    by blast
  from r(1) have i: "i = 0" unfolding np by (simp add: allows_B_policy_def)
  have old: "(case rule_values (rules ?np ! 0) of None \<Rightarrow> [] | Some sv \<Rightarrow> allowedValues sv) = [''B'']"
    by code_simp
  from r(4) have "allowedValues sv = [''B'', ''A'']" unfolding i old mi by simp
  with r(2,3) i have "\<exists>p'. AddValues allows_B_policy add_ABA = Inr p'
         \<and> (\<exists>sv. rule_values (rules p' ! 0) = Some sv \<and> allowedValues sv = [''B'', ''A''])"
    by blast
  with mi fl show ?thesis unfolding ms list_all_iff by blast
qed

text \<open>
  Claim C6, as stated, fails: with missing values and a single matching rule that has
  \<^verbatim>\<open>denyAll\<close> true, no matching rule has \<^verbatim>\<open>allowAll\<close> true, yet the rule does not become
  the target: the command raises.
\<close>

theorem first_rule_target_counterexample:
  "filter (\<lambda>r. condition r = arg_condition add_A)
       (rules (RemoveDeniedValuesFromPolicy deny_all_policy add_A)) \<noteq> []
   \<and> GetMissingAllowedValuesFromRules
        (Some (filter (\<lambda>r. condition r = arg_condition add_A)
           (rules (RemoveDeniedValuesFromPolicy deny_all_policy add_A)))) (arg_value add_A) \<noteq> []
   \<and> list_all (\<lambda>r. allowAll r \<noteq> Some True)
        (filter (\<lambda>r. condition r = arg_condition add_A)
           (rules (RemoveDeniedValuesFromPolicy deny_all_policy add_A)))
   \<and> AddValues deny_all_policy add_A = Inl OperationNotSupportedError"
  by code_simp

text \<open>
  Claim C6, amended. With missing values and at least one matching rule: when some
  matching rule has \<^verbatim>\<open>allowAll\<close> true and no matching rule before it has \<^verbatim>\<open>denyAll\<close>
  true, the policy is returned as the removal of the denied values left it, without an
  error; when no matching rule has \<^verbatim>\<open>allowAll\<close> or \<^verbatim>\<open>denyAll\<close> true, the first matching
  rule is the target: its \<^verbatim>\<open>allowAll\<close> and \<^verbatim>\<open>denyAll\<close> become unset (a stored false
  too) and the missing values are appended to its allowed values.
\<close>

theorem AddValues_allowAll_or_target:
  fixes p :: Policy and a :: Args
  defines "np \<equiv> RemoveDeniedValuesFromPolicy p a"
  defines "ms \<equiv> filter (\<lambda>r. condition r = arg_condition a) (rules np)"
  defines "missing \<equiv> GetMissingAllowedValuesFromRules (Some ms) (arg_value a)"
  assumes "ms \<noteq> []" and "missing \<noteq> []"
  shows "((\<exists>k < length ms. allowAll (ms ! k) = Some True
            \<and> (\<forall>j < k. denyAll (ms ! j) \<noteq> Some True)) \<longrightarrow> AddValues p a = Inr np)
     \<and> ((\<forall>r \<in> set ms. allowAll r \<noteq> Some True \<and> denyAll r \<noteq> Some True) \<longrightarrow>
          (\<exists>i < length (rules np). condition (rules np ! i) = arg_condition a
             \<and> (\<forall>j < i. condition (rules np ! j) \<noteq> arg_condition a)
             \<and> AddValues p a = Inr (np\<lparr>rules := (rules np)[i :=
                  (rules np ! i)\<lparr>allowAll := None, denyAll := None,
                    rule_values := Some
                      \<lparr>allowedValues = (case rule_values (rules np ! i) of None \<Rightarrow> []
                                         | Some sv \<Rightarrow> allowedValues sv) @ missing,
                       deniedValues = (case rule_values (rules np ! i) of None \<Rightarrow> []
                                        | Some sv \<Rightarrow> deniedValues sv)\<rparr>\<rparr>]\<rparr>)))"
proof (intro conjI impI)
  assume "\<exists>k < length ms. allowAll (ms ! k) = Some True \<and> (\<forall>j < k. denyAll (ms ! j) \<noteq> Some True)"
  then have "scan_rules ms = ReturnPolicy" by (simp only: scan_Return_iff)
  with assms(4,5) show "AddValues p a = Inr np"
    unfolding ms_def np_def missing_def by (intro AddValues_cases(3))
next
  assume "\<forall>r \<in> set ms. allowAll r \<noteq> Some True \<and> denyAll r \<noteq> Some True"
  with assms(4,5) show "\<exists>i < length (rules np). condition (rules np ! i) = arg_condition a
             \<and> (\<forall>j < i. condition (rules np ! j) \<noteq> arg_condition a)
             \<and> AddValues p a = Inr (np\<lparr>rules := (rules np)[i :=
                  (rules np ! i)\<lparr>allowAll := None, denyAll := None,
                    rule_values := Some
                      \<lparr>allowedValues = (case rule_values (rules np ! i) of None \<Rightarrow> []
                                         | Some sv \<Rightarrow> allowedValues sv) @ missing,
                       deniedValues = (case rule_values (rules np ! i) of None \<Rightarrow> []
                                        | Some sv \<Rightarrow> deniedValues sv)\<rparr>\<rparr>]\<rparr>)"
    unfolding ms_def np_def missing_def by (intro AddValues_target)
qed

theorem AddValues_allowAll_or_target_witness:
  "filter (\<lambda>r. condition r = arg_condition add_ABA)
       (rules (RemoveDeniedValuesFromPolicy allows_B_policy add_ABA)) \<noteq> []
   \<and> GetMissingAllowedValuesFromRules
        (Some (filter (\<lambda>r. condition r = arg_condition add_ABA)
           (rules (RemoveDeniedValuesFromPolicy allows_B_policy add_ABA)))) (arg_value add_ABA) \<noteq> []
   \<and> list_all (\<lambda>r. allowAll r \<noteq> Some True \<and> denyAll r \<noteq> Some True)
        (filter (\<lambda>r. condition r = arg_condition add_ABA)
           (rules (RemoveDeniedValuesFromPolicy allows_B_policy add_ABA)))
   \<and> AddValues allows_B_policy add_ABA =
       Inr \<lparr>rules = [\<lparr>condition = None, allowAll = None, denyAll = None,
                 rule_values = Some \<lparr>allowedValues = [''B'', ''A''], deniedValues = []\<rparr>\<rparr>]\<rparr>"
proof -
  let ?np = "RemoveDeniedValuesFromPolicy allows_B_policy add_ABA"
  let ?ms = "filter (\<lambda>r. condition r = arg_condition add_ABA) (rules ?np)"
  let ?missing = "GetMissingAllowedValuesFromRules (Some ?ms) (arg_value add_ABA)"
  have h1: "?ms \<noteq> []" by code_simp
  have h2: "?missing \<noteq> []" by code_simp
  have h3: "\<forall>r \<in> set ?ms. allowAll r \<noteq> Some True \<and> denyAll r \<noteq> Some True" by code_simp
  from AddValues_allowAll_or_target[OF h1 h2] h3
  obtain i where i: "i < length (rules ?np)"
    "AddValues allows_B_policy add_ABA = Inr (?np\<lparr>rules := (rules ?np)[i :=
                  (rules ?np ! i)\<lparr>allowAll := None, denyAll := None,
                    rule_values := Some
                      \<lparr>allowedValues = (case rule_values (rules ?np ! i) of None \<Rightarrow> []
                                         | Some sv \<Rightarrow> allowedValues sv) @ ?missing,
                       deniedValues = (case rule_values (rules ?np ! i) of None \<Rightarrow> []
                                        | Some sv \<Rightarrow> deniedValues sv)\<rparr>\<rparr>]\<rparr>)"
    by blast
  have len: "length (rules ?np) = 1" by code_simp
  with i(1) have i0: "i = 0" by simp
  have "?np\<lparr>rules := (rules ?np)[0 :=
                  (rules ?np ! 0)\<lparr>allowAll := None, denyAll := None,
                    rule_values := Some
                      \<lparr>allowedValues = (case rule_values (rules ?np ! 0) of None \<Rightarrow> []
                                         | Some sv \<Rightarrow> allowedValues sv) @ ?missing,
                       deniedValues = (case rule_values (rules ?np ! 0) of None \<Rightarrow> []
                                        | Some sv \<Rightarrow> deniedValues sv)\<rparr>\<rparr>]\<rparr>
     = \<lparr>rules = [\<lparr>condition = None, allowAll = None, denyAll = None,
                 rule_values = Some \<lparr>allowedValues = [''B'', ''A''], deniedValues = []\<rparr>\<rparr>]\<rparr>"
    by code_simp
  with i(2) i0 have "AddValues allows_B_policy add_ABA =
       Inr \<lparr>rules = [\<lparr>condition = None, allowAll = None, denyAll = None,
                 rule_values = Some \<lparr>allowedValues = [''B'', ''A''], deniedValues = []\<rparr>\<rparr>]\<rparr>"
    by simp
  with h1 h2 h3 show ?thesis unfolding list_all_iff by blast
qed

text \<open>
  Claim C10. The outcome of the scan depends on the order of the matching rules. When
  every requested value is already allowed by a matching rule the scan does not run and
  the policy is returned, whatever \<^verbatim>\<open>denyAll\<close> the rules have. Otherwise the scan
  visits the matching rules in policy order and tests \<^verbatim>\<open>allowAll\<close> before \<^verbatim>\<open>denyAll\<close> at
  each: when some matching rule has \<^verbatim>\<open>allowAll\<close> true and no matching rule before it has
  \<^verbatim>\<open>denyAll\<close> true, the command returns the policy as the removal of the denied values
  left it (also when that very rule has \<^verbatim>\<open>denyAll\<close> true, and whatever \<^verbatim>\<open>denyAll\<close> the
  rules behind it have); this is the only way for a request with missing values to
  get that policy back. The command raises exactly when some matching rule has
  \<^verbatim>\<open>denyAll\<close> true while neither it nor any matching rule before it has \<^verbatim>\<open>allowAll\<close>
  true.
\<close>

theorem AddValues_scan_order:
  fixes p :: Policy and a :: Args
  defines "np \<equiv> RemoveDeniedValuesFromPolicy p a"
  defines "ms \<equiv> filter (\<lambda>r. condition r = arg_condition a) (rules np)"
  shows "(set (arg_value a) \<subseteq> existing_allowed ms \<longrightarrow> AddValues p a = Inr np)
     \<and> (\<not> set (arg_value a) \<subseteq> existing_allowed ms \<longrightarrow>
          (AddValues p a = Inl OperationNotSupportedError \<longleftrightarrow>
             (\<exists>k < length ms. denyAll (ms ! k) = Some True
                \<and> (\<forall>j \<le> k. allowAll (ms ! j) \<noteq> Some True)))
          \<and> (AddValues p a = Inr np \<longleftrightarrow>
             (\<exists>k < length ms. allowAll (ms ! k) = Some True
                \<and> (\<forall>j < k. denyAll (ms ! j) \<noteq> Some True))))"
proof (intro conjI impI)
  assume "set (arg_value a) \<subseteq> existing_allowed ms"
  then have "GetMissingAllowedValuesFromRules (Some ms) (arg_value a) = []"
    by (simp add: missing_eq_Nil_iff)
  then show "AddValues p a = Inr np"
    unfolding ms_def np_def by (rule AddValues_cases(1))
next
  assume "\<not> set (arg_value a) \<subseteq> existing_allowed ms"
  then have mne: "GetMissingAllowedValuesFromRules (Some ms) (arg_value a) \<noteq> []"
    by (simp add: missing_eq_Nil_iff)
  have "AddValues p a = Inl OperationNotSupportedError \<longleftrightarrow> scan_rules ms = Raise"
  proof (cases "ms = []")
    case True
    with mne show ?thesis
      using AddValues_cases(2)[where p = p and a = a] unfolding ms_def np_def by simp
  next
    case False
    with mne show ?thesis
      using AddValues_cases(3,4,5)[where p = p and a = a] unfolding ms_def np_def
      by (cases "scan_rules (filter (\<lambda>r. condition r = arg_condition a)
              (rules (RemoveDeniedValuesFromPolicy p a)))") simp_all
  qed
  then show "AddValues p a = Inl OperationNotSupportedError \<longleftrightarrow>
             (\<exists>k < length ms. denyAll (ms ! k) = Some True
                \<and> (\<forall>j \<le> k. allowAll (ms ! j) \<noteq> Some True))"
    by (simp only: scan_Raise_iff)
next
  assume "\<not> set (arg_value a) \<subseteq> existing_allowed ms"
  then have mne: "GetMissingAllowedValuesFromRules (Some ms) (arg_value a) \<noteq> []"
    by (simp add: missing_eq_Nil_iff)
  have "AddValues p a = Inr np \<longleftrightarrow> scan_rules ms = ReturnPolicy"
  proof (cases "ms = []")
    case True
    let ?r = "append_allowed (GetMissingAllowedValuesFromRules (Some ms) (arg_value a))
                (empty_rule (arg_condition a))"
    have res: "AddValues p a = Inr (np\<lparr>rules := rules np @ [?r]\<rparr>)"
      using mne True unfolding ms_def np_def by (rule AddValues_cases(2))
    have "AddValues p a \<noteq> Inr np"
    proof
      assume "AddValues p a = Inr np"
      with res have eq: "np\<lparr>rules := rules np @ [?r]\<rparr> = np" by (simp only: sum.inject)
      have "rules np @ [?r] = rules (np\<lparr>rules := rules np @ [?r]\<rparr>)" by simp
      also have "\<dots> = rules np" using eq by (rule arg_cong)
      finally have "[?r] = []" by (simp only: append_self_conv)
      then show False by (simp only: list.distinct)
    qed
    moreover have "scan_rules ms \<noteq> ReturnPolicy" using True by simp
    ultimately show ?thesis by blast
  next
    case False
    let ?i = "first_matching np (arg_condition a)"
    let ?m = "GetMissingAllowedValuesFromRules (Some ms) (arg_value a)"
    let ?r = "append_allowed ?m ((rules np ! ?i)\<lparr>allowAll := None, denyAll := None\<rparr>)"
    show ?thesis
    proof (cases "scan_rules ms")
      case ReturnPolicy
      have "AddValues p a = Inr np"
        using mne False ReturnPolicy unfolding ms_def np_def by (rule AddValues_cases(3))
      with ReturnPolicy show ?thesis by blast
    next
      case Raise
      have "AddValues p a = Inl OperationNotSupportedError"
        using mne False Raise unfolding ms_def np_def by (rule AddValues_cases(4))
      then have "AddValues p a \<noteq> Inr np" by (simp only: sum.distinct not_False_eq_True)
      moreover from Raise have "scan_rules ms \<noteq> ReturnPolicy" by simp
      ultimately show ?thesis by blast
    next
      case FallThrough
      have res: "AddValues p a = Inr (np\<lparr>rules := (rules np)[?i := ?r]\<rparr>)"
        using mne False FallThrough unfolding ms_def np_def by (rule AddValues_cases(5))
      from False have i: "?i < length (rules np)" "condition (rules np ! ?i) = arg_condition a"
        unfolding ms_def by (rule first_matching_props)+
      have "AddValues p a \<noteq> Inr np"
      proof
        assume "AddValues p a = Inr np"
        with res have eq: "np\<lparr>rules := (rules np)[?i := ?r]\<rparr> = np"
          by (simp only: sum.inject)
        have "(rules np)[?i := ?r] = rules (np\<lparr>rules := (rules np)[?i := ?r]\<rparr>)" by simp
        also have "\<dots> = rules np" using eq by (rule arg_cong)
        finally have upd: "(rules np)[?i := ?r] = rules np" .
        have "?r = (rules np)[?i := ?r] ! ?i" using i(1) by simp
        also have "\<dots> = rules np ! ?i" using upd by (rule arg_cong)
        finally have same: "?r = rules np ! ?i" .
        have "set ?m \<subseteq> existing_allowed [?r]"
          by (simp add: existing_allowed_append_allowed)
        moreover have "existing_allowed [?r] = existing_allowed [rules np ! ?i]"
          using same by (rule arg_cong)
        ultimately have m_in: "set ?m \<subseteq> existing_allowed [rules np ! ?i]"
          by (rule ord_le_eq_trans)
        have "rules np ! ?i \<in> {x \<in> set (rules np). condition x = arg_condition a}"
          using nth_mem[OF i(1)] i(2) by blast
        then have "rules np ! ?i \<in> set ms" unfolding ms_def by (simp only: set_filter)
        then have "existing_allowed [rules np ! ?i] \<subseteq> existing_allowed ms"
          by (rule existing_allowed_member)
        with m_in have "set ?m \<subseteq> existing_allowed ms" by (rule order_trans)
        then have "?m = []" by (rule missing_allowed_Nil)
        with mne show False by (rule notE)
      qed
      moreover from FallThrough have "scan_rules ms \<noteq> ReturnPolicy" by simp
      ultimately show ?thesis by blast
    qed
  qed
  then show "AddValues p a = Inr np \<longleftrightarrow>
             (\<exists>k < length ms. allowAll (ms ! k) = Some True
                \<and> (\<forall>j < k. denyAll (ms ! j) \<noteq> Some True))"
    by (simp only: scan_Return_iff)
qed

theorem AddValues_scan_order_witness:
  "AddValues allowed_A_and_deny_policy add_A = Inr allowed_A_and_deny_policy
   \<and> AddValues deny_then_allow_policy add_A = Inl OperationNotSupportedError
   \<and> AddValues allow_then_deny_policy add_A = Inr allow_then_deny_policy
   \<and> AddValues both_flags_policy add_A = Inr both_flags_policy"
proof -
  let ?ms = "\<lambda>p. filter (\<lambda>r. condition r = arg_condition add_A)
                (rules (RemoveDeniedValuesFromPolicy p add_A))"
  have a1: "set (arg_value add_A) \<subseteq> existing_allowed (?ms allowed_A_and_deny_policy)"
    by code_simp
  have a2: "RemoveDeniedValuesFromPolicy allowed_A_and_deny_policy add_A = allowed_A_and_deny_policy"
    by code_simp
  from AddValues_scan_order[where p = allowed_A_and_deny_policy and a = add_A] a1 a2
  have r1: "AddValues allowed_A_and_deny_policy add_A = Inr allowed_A_and_deny_policy"
    by simp
  have b1: "\<not> set (arg_value add_A) \<subseteq> existing_allowed (?ms deny_then_allow_policy)"
    by code_simp
  have b2: "0 < length (?ms deny_then_allow_policy)
      \<and> denyAll (?ms deny_then_allow_policy ! 0) = Some True
      \<and> (\<forall>j \<le> 0. allowAll (?ms deny_then_allow_policy ! j) \<noteq> Some True)"
    by code_simp
  from AddValues_scan_order[where p = deny_then_allow_policy and a = add_A] b1 b2
  have r2: "AddValues deny_then_allow_policy add_A = Inl OperationNotSupportedError"
    by blast
  have c1: "\<not> set (arg_value add_A) \<subseteq> existing_allowed (?ms allow_then_deny_policy)"
    by code_simp
  have c2: "0 < length (?ms allow_then_deny_policy)
      \<and> allowAll (?ms allow_then_deny_policy ! 0) = Some True
      \<and> (\<forall>j < 0. denyAll (?ms allow_then_deny_policy ! j) \<noteq> Some True)"
    by code_simp
  have c3: "RemoveDeniedValuesFromPolicy allow_then_deny_policy add_A = allow_then_deny_policy"
    by code_simp
  from AddValues_scan_order[where p = allow_then_deny_policy and a = add_A] c1 c2
  have "AddValues allow_then_deny_policy add_A
      = Inr (RemoveDeniedValuesFromPolicy allow_then_deny_policy add_A)"
    by blast
  then have r3: "AddValues allow_then_deny_policy add_A = Inr allow_then_deny_policy"
    by (simp only: c3)
  have d1: "\<not> set (arg_value add_A) \<subseteq> existing_allowed (?ms both_flags_policy)"
    by code_simp
  have d2: "0 < length (?ms both_flags_policy)
      \<and> allowAll (?ms both_flags_policy ! 0) = Some True
      \<and> (\<forall>j < 0. denyAll (?ms both_flags_policy ! j) \<noteq> Some True)"
    by code_simp
  have d3: "RemoveDeniedValuesFromPolicy both_flags_policy add_A = both_flags_policy"
    by code_simp
  from AddValues_scan_order[where p = both_flags_policy and a = add_A] d1 d2
  have "AddValues both_flags_policy add_A
      = Inr (RemoveDeniedValuesFromPolicy both_flags_policy add_A)"
    by blast
  then have r4: "AddValues both_flags_policy add_A = Inr both_flags_policy"
    by (simp only: d3)
  from r1 r2 r3 r4 show ?thesis by blast
qed

text \<open>
  Claim C9. From the empty policy, adding the values \<open>A\<close> and \<open>B\<close> under a condition
  and then removing them under the same condition gives the empty policy again, so no
  rule for the condition is left: the removal empties the allowed values of the one rule,
  and a rule of the requested condition with empty or absent lists and unset flags is
  deleted. In general no such dead rule of the requested condition survives a removal.
\<close>

theorem add_then_remove_round_trip:
  "Reconcile \<lparr>rules = []\<rparr> \<lparr>arg_value = [A, B], arg_remove = False, arg_condition = C\<rparr>
     = Inr \<lparr>rules = [\<lparr>condition = C, allowAll = None, denyAll = None,
            rule_values = Some \<lparr>allowedValues = (if A = B then [A] else [A, B]),
                                deniedValues = []\<rparr>\<rparr>]\<rparr>
   \<and> Reconcile \<lparr>rules = [\<lparr>condition = C, allowAll = None, denyAll = None,
            rule_values = Some \<lparr>allowedValues = (if A = B then [A] else [A, B]),
                                deniedValues = []\<rparr>\<rparr>]\<rparr>
         \<lparr>arg_value = [A, B], arg_remove = True, arg_condition = C\<rparr>
     = Inr \<lparr>rules = []\<rparr>
   \<and> (\<forall>r \<in> set (rules (RemoveAllowedValuesFromPolicy p a)).
         condition r = arg_condition a \<longrightarrow> \<not> dead_rule r)"
proof (intro conjI)
  let ?add = "\<lparr>arg_value = [A, B], arg_remove = False, arg_condition = C\<rparr>"
  have np: "RemoveDeniedValuesFromPolicy \<lparr>rules = []\<rparr> ?add = \<lparr>rules = []\<rparr>"
    by (simp add: RemoveDeniedValuesFromPolicy_def RemoveValuesFromPolicy_def)
  have mi: "GetMissingAllowedValuesFromRules (Some []) [A, B] = (if A = B then [A] else [A, B])"
    by (simp add: GetMissing_eq existing_allowed_def fromkeys_two)
  have "AddValues \<lparr>rules = []\<rparr> ?add
      = Inr (\<lparr>rules = [] @ [append_allowed (if A = B then [A] else [A, B]) (empty_rule C)]\<rparr>)"
    using AddValues_cases(2)[where p = "\<lparr>rules = []\<rparr>" and a = ?add] np mi
    by (simp split: if_splits)
  then show "Reconcile \<lparr>rules = []\<rparr> ?add
     = Inr \<lparr>rules = [\<lparr>condition = C, allowAll = None, denyAll = None,
            rule_values = Some \<lparr>allowedValues = (if A = B then [A] else [A, B]),
                                deniedValues = []\<rparr>\<rparr>]\<rparr>"
    by (simp add: Reconcile_add append_allowed_def empty_rule_def)
next
  show "Reconcile \<lparr>rules = [\<lparr>condition = C, allowAll = None, denyAll = None,
            rule_values = Some \<lparr>allowedValues = (if A = B then [A] else [A, B]),
                                deniedValues = []\<rparr>\<rparr>]\<rparr>
         \<lparr>arg_value = [A, B], arg_remove = True, arg_condition = C\<rparr>
     = Inr \<lparr>rules = []\<rparr>"
    by (simp add: Reconcile_remove RemoveAllowedValuesFromPolicy_def RemoveValuesFromPolicy_def
        remove_from_rule_def remove_from_values_def dead_rule_def)
next
  show "\<forall>r \<in> set (rules (RemoveAllowedValuesFromPolicy p a)).
         condition r = arg_condition a \<longrightarrow> \<not> dead_rule r"
    unfolding RemoveAllowedValuesFromPolicy_def
    by (auto dest: no_dead_rule_after_removal)
qed

theorem add_then_remove_round_trip_witness:
  "Reconcile \<lparr>rules = []\<rparr> \<lparr>arg_value = [''A'', ''B''], arg_remove = False, arg_condition = Some ''c''\<rparr>
     = Inr \<lparr>rules = [\<lparr>condition = Some ''c'', allowAll = None, denyAll = None,
            rule_values = Some \<lparr>allowedValues = [''A'', ''B''], deniedValues = []\<rparr>\<rparr>]\<rparr>
   \<and> Reconcile \<lparr>rules = [\<lparr>condition = Some ''c'', allowAll = None, denyAll = None,
            rule_values = Some \<lparr>allowedValues = [''A'', ''B''], deniedValues = []\<rparr>\<rparr>]\<rparr>
         \<lparr>arg_value = [''A'', ''B''], arg_remove = True, arg_condition = Some ''c''\<rparr>
     = Inr \<lparr>rules = []\<rparr>
   \<and> rules (RemoveAllowedValuesFromPolicy two_rule_policy remove_A_c)
       = [\<lparr>condition = None, allowAll = None, denyAll = None,
                 rule_values = Some \<lparr>allowedValues = [''X''], deniedValues = []\<rparr>\<rparr>,
          \<lparr>condition = Some ''c'', allowAll = None, denyAll = None,
                 rule_values = Some \<lparr>allowedValues = [], deniedValues = [''B'']\<rparr>\<rparr>]
   \<and> \<not> dead_rule (rules (RemoveAllowedValuesFromPolicy two_rule_policy remove_A_c) ! 1)"
proof -
  have ev: "rules (RemoveAllowedValuesFromPolicy two_rule_policy remove_A_c)
       = [\<lparr>condition = None, allowAll = None, denyAll = None,
                 rule_values = Some \<lparr>allowedValues = [''X''], deniedValues = []\<rparr>\<rparr>,
          \<lparr>condition = Some ''c'', allowAll = None, denyAll = None,
                 rule_values = Some \<lparr>allowedValues = [], deniedValues = [''B'']\<rparr>\<rparr>]"
    by code_simp
  have c: "arg_condition remove_A_c = Some ''c''" by code_simp
  note rt = add_then_remove_round_trip[of "''A''" "''B''" "Some ''c''" two_rule_policy remove_A_c]
  from rt have "\<forall>r \<in> set (rules (RemoveAllowedValuesFromPolicy two_rule_policy remove_A_c)).
         condition r = arg_condition remove_A_c \<longrightarrow> \<not> dead_rule r" by blast
  then have "\<not> dead_rule (rules (RemoveAllowedValuesFromPolicy two_rule_policy remove_A_c) ! 1)"
    unfolding ev c by simp
  moreover from rt have "Reconcile \<lparr>rules = []\<rparr> \<lparr>arg_value = [''A'', ''B''], arg_remove = False, arg_condition = Some ''c''\<rparr>
     = Inr \<lparr>rules = [\<lparr>condition = Some ''c'', allowAll = None, denyAll = None,
            rule_values = Some \<lparr>allowedValues = [''A'', ''B''], deniedValues = []\<rparr>\<rparr>]\<rparr>
   \<and> Reconcile \<lparr>rules = [\<lparr>condition = Some ''c'', allowAll = None, denyAll = None,
            rule_values = Some \<lparr>allowedValues = [''A'', ''B''], deniedValues = []\<rparr>\<rparr>]\<rparr>
         \<lparr>arg_value = [''A'', ''B''], arg_remove = True, arg_condition = Some ''c''\<rparr>
     = Inr \<lparr>rules = []\<rparr>" by simp
  ultimately show ?thesis using ev by blast
qed

text \<open>
  Claim C1. On a policy of the specification's data model (no rule has \<^verbatim>\<open>allowAll\<close> and
  \<^verbatim>\<open>denyAll\<close> true at once), an add request (values given, no removal) whose scan
  reaches a matching rule with \<^verbatim>\<open>denyAll\<close> true fails with the unsupported-operation
  error (\<^verbatim>\<open>OperationNotSupportedError\<close> in the source). The scan runs when a requested
  value is missing, and it reaches a rule when no matching rule before it has either flag
  true. The result is the error alone, and the caller's policy is untouched: every object
  that the store held before the call is still there with its content, so the policy
  reads as it did.
\<close>

theorem denyAll_reached_rejected:
  fixes st :: Store and pr :: nat and a :: Args
  defines "np \<equiv> RemoveDeniedValuesFromPolicy (read_policy st pr) a"
  defines "ms \<equiv> filter (\<lambda>r. condition r = arg_condition a) (rules np)"
  defines "st' \<equiv> snd (Reconcile_st st pr a)"
  assumes "wf_policy st pr" and "exclusive_flags (read_policy st pr)"
    and "arg_value a \<noteq> []" and "\<not> arg_remove a"
    and "\<not> set (arg_value a) \<subseteq> existing_allowed ms"
    and "k < length ms"
    and "\<forall>j < k. allowAll (ms ! j) \<noteq> Some True \<and> denyAll (ms ! j) \<noteq> Some True"
    and "denyAll (ms ! k) = Some True"
  shows "fst (Reconcile_st st pr a) = Inl OperationNotSupportedError
     \<and> Reconcile (read_policy st pr) a = Inl OperationNotSupportedError
     \<and> read_policy st' pr = read_policy st pr
     \<and> take (length (policy_objs st)) (policy_objs st') = policy_objs st
     \<and> take (length (rule_objs st)) (rule_objs st') = rule_objs st
     \<and> take (length (values_objs st)) (values_objs st') = values_objs st"
proof -
  obtain res where run: "Reconcile_st st pr a = (res, st')"
    unfolding st'_def by (cases "Reconcile_st st pr a") simp
  have "exclusive_flags np"
    unfolding np_def RemoveDeniedValuesFromPolicy_def
    using assms(5) by (rule exclusive_flags_RemoveValuesFromPolicy)
  moreover have "ms ! k \<in> set (rules np)"
    using assms(9) nth_mem[of k ms] by (auto simp: ms_def)
  ultimately have "\<not> (allowAll (ms ! k) = Some True \<and> denyAll (ms ! k) = Some True)"
    by (simp add: exclusive_flags_def list_all_iff)
  with assms(11) have nA: "allowAll (ms ! k) \<noteq> Some True" by simp
  have pure: "Reconcile (read_policy st pr) a = Inl OperationNotSupportedError"
    using assms(6-11) nA unfolding ms_def np_def by (rule Reconcile_raises)
  from Reconcile_st_read[OF run assms(4)] pure
  have "res = Inl OperationNotSupportedError" by (cases res) simp_all
  moreover from Reconcile_st_frame(1)[OF run] have e: "store_ext st st'" .
  moreover from e assms(4) have "read_policy st' pr = read_policy st pr"
    by (rule read_policy_ext)
  ultimately show ?thesis using pure run store_kept[OF e] by simp
qed

theorem denyAll_reached_rejected_witness:
  "wf_policy allows_B_then_deny_store 0
   \<and> exclusive_flags (read_policy allows_B_then_deny_store 0)
   \<and> arg_value add_A \<noteq> [] \<and> \<not> arg_remove add_A
   \<and> \<not> set (arg_value add_A) \<subseteq> existing_allowed (filter (\<lambda>r. condition r = arg_condition add_A)
         (rules (RemoveDeniedValuesFromPolicy (read_policy allows_B_then_deny_store 0) add_A)))
   \<and> length (filter (\<lambda>r. condition r = arg_condition add_A)
         (rules (RemoveDeniedValuesFromPolicy (read_policy allows_B_then_deny_store 0) add_A))) = 2
   \<and> allowAll (filter (\<lambda>r. condition r = arg_condition add_A)
         (rules (RemoveDeniedValuesFromPolicy (read_policy allows_B_then_deny_store 0) add_A)) ! 0)
        = Some False
   \<and> denyAll (filter (\<lambda>r. condition r = arg_condition add_A)
         (rules (RemoveDeniedValuesFromPolicy (read_policy allows_B_then_deny_store 0) add_A)) ! 0)
        = None
   \<and> denyAll (filter (\<lambda>r. condition r = arg_condition add_A)
         (rules (RemoveDeniedValuesFromPolicy (read_policy allows_B_then_deny_store 0) add_A)) ! 1)
        = Some True
   \<and> fst (Reconcile_st allows_B_then_deny_store 0 add_A) = Inl OperationNotSupportedError
   \<and> read_policy (snd (Reconcile_st allows_B_then_deny_store 0 add_A)) 0
        = read_policy allows_B_then_deny_store 0
   \<and> take 1 (policy_objs (snd (Reconcile_st allows_B_then_deny_store 0 add_A)))
        = policy_objs allows_B_then_deny_store
   \<and> take 3 (rule_objs (snd (Reconcile_st allows_B_then_deny_store 0 add_A)))
        = rule_objs allows_B_then_deny_store
   \<and> take 1 (values_objs (snd (Reconcile_st allows_B_then_deny_store 0 add_A)))
        = values_objs allows_B_then_deny_store"
proof -
  let ?ms = "filter (\<lambda>r. condition r = arg_condition add_A)
         (rules (RemoveDeniedValuesFromPolicy (read_policy allows_B_then_deny_store 0) add_A))"
  have h0: "wf_policy allows_B_then_deny_store 0" by code_simp
  have hx: "exclusive_flags (read_policy allows_B_then_deny_store 0)" by code_simp
  have h1: "arg_value add_A \<noteq> []" by code_simp
  have h2: "\<not> arg_remove add_A" by code_simp
  have h3: "\<not> set (arg_value add_A) \<subseteq> existing_allowed ?ms" by code_simp
  have len: "length ?ms = 2" by code_simp
  then have h4: "1 < length ?ms" by simp
  have m0: "allowAll (?ms ! 0) = Some False" "denyAll (?ms ! 0) = None" by code_simp+
  then have h5: "\<forall>j < 1. allowAll (?ms ! j) \<noteq> Some True \<and> denyAll (?ms ! j) \<noteq> Some True"
    by simp
  have h6: "denyAll (?ms ! 1) = Some True" by code_simp
  have l: "length (policy_objs allows_B_then_deny_store) = 1"
    "length (rule_objs allows_B_then_deny_store) = 3"
    "length (values_objs allows_B_then_deny_store) = 1" by code_simp+
  from denyAll_reached_rejected[OF h0 hx h1 h2 h3 h4 h5 h6] h0 hx h1 h2 h3 len m0 h6
  show ?thesis unfolding l by simp
qed

text \<open>
  Claim C7. \<^verbatim>\<open>Reconcile\<close> never changes the caller's policy in place. Whatever the
  request and whether the call returns a policy or raises, every object that the store
  held before the call is still there with its content, so the input policy reads as it
  did; a returned policy is a well-formed policy made of objects allocated during the
  call only (its own object, its rule objects and their \<^verbatim>\<open>values\<close> objects lie beyond
  the old store), so it shares no object with the input, and it reads as the value the
  value-level \<^verbatim>\<open>Reconcile\<close> computes.
\<close>

theorem Reconcile_st_input_untouched:
  fixes st :: Store and pr :: nat and a :: Args
  defines "st' \<equiv> snd (Reconcile_st st pr a)"
  assumes "wf_policy st pr"
  shows "take (length (policy_objs st)) (policy_objs st') = policy_objs st
     \<and> take (length (rule_objs st)) (rule_objs st') = rule_objs st
     \<and> take (length (values_objs st)) (values_objs st') = values_objs st
     \<and> read_policy st' pr = read_policy st pr
     \<and> (\<forall>pr'. fst (Reconcile_st st pr a) = Inr pr' \<longrightarrow>
          wf_policy st' pr'
          \<and> Reconcile (read_policy st pr) a = Inr (read_policy st' pr')
          \<and> length (policy_objs st) \<le> pr'
          \<and> (\<forall>r \<in> set (policy_objs st' ! pr').
                length (rule_objs st) \<le> r
                \<and> (\<forall>v \<in> set_option (obj_values (rule_objs st' ! r)). length (values_objs st) \<le> v)))"
proof -
  obtain res where run: "Reconcile_st st pr a = (res, st')"
    unfolding st'_def by (cases "Reconcile_st st pr a") simp
  from Reconcile_st_frame(1)[OF run] have e: "store_ext st st'" .
  have "read_policy st' pr = read_policy st pr"
    using e assms(2) by (rule read_policy_ext)
  moreover have "wf_policy st' pr'
          \<and> Reconcile (read_policy st pr) a = Inr (read_policy st' pr')
          \<and> length (policy_objs st) \<le> pr'
          \<and> (\<forall>r \<in> set (policy_objs st' ! pr').
                length (rule_objs st) \<le> r
                \<and> (\<forall>v \<in> set_option (obj_values (rule_objs st' ! r)). length (values_objs st) \<le> v))"
    if "res = Inr pr'" for pr'
  proof -
    from run that have run': "Reconcile_st st pr a = (Inr pr', st')" by simp
    from Reconcile_st_wf[OF run' assms(2)] have "wf_policy st' pr'" .
    moreover from Reconcile_st_read[OF run' assms(2)]
    have "Reconcile (read_policy st pr) a = Inr (read_policy st' pr')"
      by simp
    moreover from Reconcile_st_frame(2)[OF run that]
    have "length (policy_objs st) \<le> pr'
          \<and> (\<forall>r \<in> set (policy_objs st' ! pr').
                length (rule_objs st) \<le> r
                \<and> (\<forall>v \<in> set_option (obj_values (rule_objs st' ! r)). length (values_objs st) \<le> v))"
      by (simp add: fresh_policy_def fresh_rule_def list_all_iff)
    ultimately show ?thesis by blast
  qed
  ultimately show ?thesis using store_kept[OF e] run by simp
qed

theorem Reconcile_st_input_untouched_witness:
  "wf_policy ex_store 0
   \<and> fst (Reconcile_st ex_store 0 add_ABA) = Inr 2
   \<and> read_policy (snd (Reconcile_st ex_store 0 add_ABA)) 0 = read_policy ex_store 0
   \<and> take 1 (policy_objs (snd (Reconcile_st ex_store 0 add_ABA))) = policy_objs ex_store
   \<and> take 2 (rule_objs (snd (Reconcile_st ex_store 0 add_ABA))) = rule_objs ex_store
   \<and> take 1 (values_objs (snd (Reconcile_st ex_store 0 add_ABA))) = values_objs ex_store
   \<and> policy_objs (snd (Reconcile_st ex_store 0 add_ABA)) ! 2 = [4, 5]
   \<and> obj_values (rule_objs (snd (Reconcile_st ex_store 0 add_ABA)) ! 4) = Some 2
   \<and> read_policy (snd (Reconcile_st ex_store 0 add_ABA)) 2 =
       \<lparr>rules = [\<lparr>condition = None, allowAll = None, denyAll = None,
                   rule_values = Some \<lparr>allowedValues = [''B'', ''A''], deniedValues = []\<rparr>\<rparr>,
                 \<lparr>condition = Some ''c'', allowAll = None, denyAll = None, rule_values = None\<rparr>]\<rparr>"
proof -
  have h: "wf_policy ex_store 0" by code_simp
  have l: "length (policy_objs ex_store) = 1" "length (rule_objs ex_store) = 2"
    "length (values_objs ex_store) = 1" by code_simp+
  have r: "fst (Reconcile_st ex_store 0 add_ABA) = Inr 2" by code_simp
  have ev: "policy_objs (snd (Reconcile_st ex_store 0 add_ABA)) ! 2 = [4, 5]"
    "obj_values (rule_objs (snd (Reconcile_st ex_store 0 add_ABA)) ! 4) = Some 2"
    "Reconcile (read_policy ex_store 0) add_ABA = Inr
       \<lparr>rules = [\<lparr>condition = None, allowAll = None, denyAll = None,
                   rule_values = Some \<lparr>allowedValues = [''B'', ''A''], deniedValues = []\<rparr>\<rparr>,
                 \<lparr>condition = Some ''c'', allowAll = None, denyAll = None, rule_values = None\<rparr>]\<rparr>"
    by code_simp+
  from Reconcile_st_input_untouched[OF h, of add_ABA] r h ev
  show ?thesis unfolding l by auto
qed

end
